theory Spec2Isabelle
  imports Main
begin

section \<open>Data model\<close>

text \<open>
  The diff blocks of \<^verbatim>\<open>DiffApproveProvider.ts\<close> and \<^verbatim>\<open>types.ts\<close>:
  \<^verbatim>\<open>{ id, type: "addition" | "deletion" | "change" | "context", oldLines, newLines, oldStart, newStart }\<close>.
  Numbers are modelled as \<open>int\<close>, strings as \<open>string\<close>, arrays as lists.
\<close>

datatype BlockType = Addition | Deletion | Change | Context

record DiffBlock =
  block_id :: int
  block_type :: BlockType
  oldLines :: "string list"
  newLines :: "string list"
  oldStart :: int
  newStart :: int

text \<open>
  One part of the result of the library call \<^verbatim>\<open>diff.diffLines(content1, content2)\<close>:
  \<^verbatim>\<open>{ value: string, count?: number, added?: boolean, removed?: boolean }\<close>.
  An absent \<^verbatim>\<open>count\<close> is \<open>None\<close>; an absent flag is \<open>False\<close>.
\<close>

record Part =
  part_value :: string
  part_count :: "int option"
  part_added :: bool
  part_removed :: bool

section \<open>String helpers of the JavaScript runtime\<close>

text \<open>\<^verbatim>\<open>s.split("\n")\<close>: the segments between newlines; never the empty list.\<close>

fun split_nl :: "string \<Rightarrow> string list" where
  "split_nl [] = [[]]"
| "split_nl (c # cs) =
     (if c = CHR 0x0A then [] # split_nl cs
      else (case split_nl cs of [] \<Rightarrow> [[c]] | l # ls \<Rightarrow> (c # l) # ls))"

text \<open>\<^verbatim>\<open>s.endsWith("\n")\<close>.\<close>

definition endsWith_nl :: "string \<Rightarrow> bool" where
  "endsWith_nl s = (s \<noteq> [] \<and> last s = CHR 0x0A)"

text \<open>\<^verbatim>\<open>lines.join("\n")\<close>.\<close>

fun join_nl :: "string list \<Rightarrow> string" where
  "join_nl [] = []"
| "join_nl [l] = l"
| "join_nl (l # ls) = l @ CHR 0x0A # join_nl ls"

section \<open>DiffFile.computeDiff\<close>

text \<open>
  The line filter applied to every part:
  \<^verbatim>\<open>part.value.split("\n").filter((line) => line.length > 0 || part.value.endsWith("\n"))\<close>.
\<close>

definition part_lines :: "Part \<Rightarrow> string list" where
  "part_lines part =
     filter (\<lambda>line. length line > 0 \<or> endsWith_nl (part_value part)) (split_nl (part_value part))"

text \<open>\<^verbatim>\<open>part.count || 0\<close>.\<close>

definition count_or_0 :: "Part \<Rightarrow> int" where
  "count_or_0 part = (case part_count part of None \<Rightarrow> 0 | Some c \<Rightarrow> c)"

text \<open>
  The local variables of the loop in \<^verbatim>\<open>computeDiff\<close>: \<open>c_blocks\<close> is \<^verbatim>\<open>blocks\<close>,
  \<open>c_blockId\<close> is \<^verbatim>\<open>blockId\<close>, and so on.
\<close>

record DiffState =
  c_blocks :: "DiffBlock list"
  c_blockId :: int
  c_oldLineNumber :: int
  c_newLineNumber :: int
  c_pendingBlock :: "DiffBlock option"
  c_lastChangeLineNumber :: int

definition initDiffState :: DiffState where
  "initDiffState = \<lparr> c_blocks = [], c_blockId = 0, c_oldLineNumber = 1, c_newLineNumber = 1,
                      c_pendingBlock = None, c_lastChangeLineNumber = -1 \<rparr>"

text \<open>\<^verbatim>\<open>if (pendingBlock) blocks.push(pendingBlock)\<close>: the blocks after the push.\<close>

definition pushPending :: "DiffState \<Rightarrow> DiffBlock list" where
  "pushPending st = c_blocks st @ (case c_pendingBlock st of None \<Rightarrow> [] | Some pb \<Rightarrow> [pb])"

text \<open>The decision "start a new block" of the loop body.\<close>

definition startsNewBlock :: "DiffState \<Rightarrow> Part \<Rightarrow> bool" where
  "startsNewBlock st part =
     (let currentLineNumber = (if part_added part then c_newLineNumber st else c_oldLineNumber st)
      in case c_pendingBlock st of
           None \<Rightarrow> True
         | Some pb \<Rightarrow>
             currentLineNumber - c_lastChangeLineNumber st > 1
             \<or> (part_added part \<and> block_type pb = Addition)
             \<or> (part_removed part \<and> block_type pb = Deletion))"

text \<open>The pending block after the first \<^verbatim>\<open>if / else if\<close> of the changed-part branch.\<close>

definition openBlock :: "DiffState \<Rightarrow> Part \<Rightarrow> DiffState" where
  "openBlock st part =
     (if startsNewBlock st part then
        st\<lparr> c_blocks := pushPending st,
            c_pendingBlock := Some \<lparr> block_id = c_blockId st,
                                   block_type = (if part_added part then Addition else Deletion),
                                   oldLines = [], newLines = [],
                                   oldStart = c_oldLineNumber st, newStart = c_newLineNumber st \<rparr>,
            c_blockId := c_blockId st + 1 \<rparr>
      else
        (case c_pendingBlock st of
           None \<Rightarrow> st
         | Some pb \<Rightarrow>
             if (part_added part \<and> block_type pb = Deletion)
                \<or> (part_removed part \<and> block_type pb = Addition)
             then st\<lparr> c_pendingBlock := Some (pb\<lparr> block_type := Change \<rparr>) \<rparr>
             else st))"

text \<open>One iteration of \<^verbatim>\<open>for (const part of changes)\<close>.\<close>

definition computeDiff_step :: "DiffState \<Rightarrow> Part \<Rightarrow> DiffState" where
  "computeDiff_step st part =
     (if part_added part \<or> part_removed part then
        (let lines = part_lines part;
             st1 = openBlock st part
         in if part_added part then
              st1\<lparr> c_pendingBlock :=
                     map_option (\<lambda>pb. pb\<lparr> newLines := newLines pb @ lines \<rparr>) (c_pendingBlock st1),
                   c_newLineNumber := c_newLineNumber st1 + count_or_0 part,
                   c_lastChangeLineNumber := c_newLineNumber st1 + count_or_0 part - 1 \<rparr>
            else
              st1\<lparr> c_pendingBlock :=
                     map_option (\<lambda>pb. pb\<lparr> oldLines := oldLines pb @ lines \<rparr>) (c_pendingBlock st1),
                   c_oldLineNumber := c_oldLineNumber st1 + count_or_0 part,
                   c_lastChangeLineNumber := c_oldLineNumber st1 + count_or_0 part - 1 \<rparr>)
      else
        (let contextLines = part_lines part;
             flushed = pushPending st;
             emitted = (if length contextLines > 0 then
                          [\<lparr> block_id = c_blockId st, block_type = Context,
                             oldLines = contextLines, newLines = contextLines,
                             oldStart = c_oldLineNumber st, newStart = c_newLineNumber st \<rparr>]
                        else [])
         in st\<lparr> c_blocks := flushed @ emitted,
                c_pendingBlock := None,
                c_blockId := (if length contextLines > 0 then c_blockId st + 1 else c_blockId st),
                c_oldLineNumber := c_oldLineNumber st + count_or_0 part,
                c_newLineNumber := c_newLineNumber st + count_or_0 part,
                c_lastChangeLineNumber := -1 \<rparr>))"

primrec computeDiff_loop :: "DiffState \<Rightarrow> Part list \<Rightarrow> DiffState" where
  "computeDiff_loop st [] = st"
| "computeDiff_loop st (part # changes) = computeDiff_loop (computeDiff_step st part) changes"

text \<open>
  \<^verbatim>\<open>computeDiff(content1, content2)\<close>. The library function \<^verbatim>\<open>diff.diffLines\<close> is not part
  of the repository and is taken as a parameter.
\<close>

definition computeDiff :: "(string \<Rightarrow> string \<Rightarrow> Part list) \<Rightarrow> string \<Rightarrow> string \<Rightarrow> DiffBlock list" where
  "computeDiff diffLines content1 content2 =
     pushPending (computeDiff_loop initDiffState (diffLines content1 content2))"

section \<open>DiffApprovePanel._computeDiff\<close>

text \<open>
  The inner loop \<^verbatim>\<open>for (searchJ = j; searchJ < Math.min(j + 10, lines2.length); searchJ++)\<close>
  with its \<^verbatim>\<open>break\<close> at the first equal line; \<open>limJ\<close> is the loop bound.
\<close>

function searchJ_loop :: "string list \<Rightarrow> string list \<Rightarrow> nat \<Rightarrow> nat \<Rightarrow> nat \<Rightarrow> nat option" where
  "searchJ_loop lines1 lines2 searchI searchJ limJ =
     (if searchJ < limJ then
        (if lines1 ! searchI = lines2 ! searchJ then Some searchJ
         else searchJ_loop lines1 lines2 searchI (searchJ + 1) limJ)
      else None)"
  by pat_completeness auto
termination
  by (relation "measure (\<lambda>(lines1, lines2, searchI, searchJ, limJ). limJ - searchJ)") auto

text \<open>
  The outer loop \<^verbatim>\<open>for (searchI = i; searchI < Math.min(i + 10, lines1.length); searchI++)\<close>,
  left as soon as the inner loop has found a match. \<open>None\<close> stands for
  \<^verbatim>\<open>nextMatchOld === -1\<close>.
\<close>

function searchI_loop :: "string list \<Rightarrow> string list \<Rightarrow> nat \<Rightarrow> nat \<Rightarrow> nat \<Rightarrow> nat \<Rightarrow> (nat \<times> nat) option" where
  "searchI_loop lines1 lines2 searchI limI j limJ =
     (if searchI < limI then
        (case searchJ_loop lines1 lines2 searchI j limJ of
           Some searchJ \<Rightarrow> Some (searchI, searchJ)
         | None \<Rightarrow> searchI_loop lines1 lines2 (searchI + 1) limI j limJ)
      else None)"
  by pat_completeness auto
termination
  by (relation "measure (\<lambda>(lines1, lines2, searchI, limI, j, limJ). limI - searchI)") auto

definition findNextMatch :: "string list \<Rightarrow> string list \<Rightarrow> nat \<Rightarrow> nat \<Rightarrow> (nat \<times> nat) option" where
  "findNextMatch lines1 lines2 i j =
     searchI_loop lines1 lines2 i (min (i + 10) (length lines1)) j (min (j + 10) (length lines2))"

text \<open>\<^verbatim>\<open>lines.slice(from, to)\<close> for \<open>from \<le> to \<le> length\<close>.\<close>

definition slice :: "'a list \<Rightarrow> nat \<Rightarrow> nat \<Rightarrow> 'a list" where
  "slice xs from to = take (to - from) (drop from xs)"

definition mkBlock :: "int \<Rightarrow> BlockType \<Rightarrow> nat \<Rightarrow> string list \<Rightarrow> nat \<Rightarrow> string list \<Rightarrow> DiffBlock" where
  "mkBlock n t i old j new =
     \<lparr> block_id = n, block_type = t, oldLines = old, newLines = new,
       oldStart = int i + 1, newStart = int j + 1 \<rparr>"

text \<open>
  The body of the \<^verbatim>\<open>while\<close> loop: from \<open>(i, j, pblocks, pblockId)\<close> (the variables \<^verbatim>\<open>i, j, blocks, blockId\<close>) to their
  values after one iteration. The context branch appends to the last block in place.
\<close>

definition panel_step ::
  "string list \<Rightarrow> string list \<Rightarrow> nat \<times> nat \<times> DiffBlock list \<times> int \<Rightarrow> nat \<times> nat \<times> DiffBlock list \<times> int" where
  "panel_step lines1 lines2 st =
     (case st of (i, j, pblocks, pblockId) \<Rightarrow>
        if i < length lines1 \<and> j < length lines2 \<and> lines1 ! i = lines2 ! j then
          (let opened = (pblocks = [] \<or> block_type (last pblocks) \<noteq> Context);
               pblocks1 = (if opened then pblocks @ [mkBlock pblockId Context i [] j []] else pblocks);
               lastBlock = last pblocks1
           in (i + 1, j + 1,
               butlast pblocks1 @ [lastBlock\<lparr> oldLines := oldLines lastBlock @ [lines1 ! i],
                                             newLines := newLines lastBlock @ [lines2 ! j] \<rparr>],
               if opened then pblockId + 1 else pblockId))
        else
          (case findNextMatch lines1 lines2 i j of
             None \<Rightarrow>
               if i < length lines1 \<and> j < length lines2 then
                 (i + 1, j + 1, pblocks @ [mkBlock pblockId Change i [lines1 ! i] j [lines2 ! j]], pblockId + 1)
               else if i < length lines1 then
                 (i + 1, j, pblocks @ [mkBlock pblockId Deletion i [lines1 ! i] j []], pblockId + 1)
               else
                 (i, j + 1, pblocks @ [mkBlock pblockId Addition i [] j [lines2 ! j]], pblockId + 1)
           | Some (nextMatchOld, nextMatchNew) \<Rightarrow>
               (nextMatchOld, nextMatchNew,
                pblocks @ [if nextMatchOld > i \<and> nextMatchNew > j then
                            mkBlock pblockId Change i (slice lines1 i nextMatchOld) j (slice lines2 j nextMatchNew)
                          else if nextMatchOld > i then
                            mkBlock pblockId Deletion i (slice lines1 i nextMatchOld) j []
                          else
                            mkBlock pblockId Addition i [] j (slice lines2 j nextMatchNew)],
                pblockId + 1)))"

text \<open>What a successful search returns; needed for the termination of the main loop.\<close>

declare searchJ_loop.simps [simp del] searchI_loop.simps [simp del]

lemma searchJ_loop_Some:
  "searchJ_loop l1 l2 si sj limJ = Some r \<Longrightarrow> sj \<le> r \<and> r < limJ \<and> l1 ! si = l2 ! r"
proof (induction l1 l2 si sj limJ rule: searchJ_loop.induct)
  case (1 lines1 lines2 searchI searchJ limJ)
  show ?case
  proof (cases "searchJ < limJ")
    case inside: True
    show ?thesis
    proof (cases "lines1 ! searchI = lines2 ! searchJ")
      case True
      with inside "1.prems" show ?thesis
        by (simp add: searchJ_loop.simps[of lines1 lines2 searchI searchJ limJ])
    next
      case False
      with inside "1.prems" have "searchJ_loop lines1 lines2 searchI (searchJ + 1) limJ = Some r"
        by (simp add: searchJ_loop.simps[of lines1 lines2 searchI searchJ limJ])
      with "1.IH"[OF inside False] show ?thesis by simp
    qed
  next
    case False
    with "1.prems" show ?thesis
      by (simp add: searchJ_loop.simps[of lines1 lines2 searchI searchJ limJ])
  qed
qed

lemma searchI_loop_Some:
  "searchI_loop l1 l2 si limI j limJ = Some (a, b) \<Longrightarrow>
     si \<le> a \<and> a < limI \<and> j \<le> b \<and> b < limJ \<and> l1 ! a = l2 ! b"
proof (induction l1 l2 si limI j limJ rule: searchI_loop.induct)
  case (1 lines1 lines2 searchI limI j limJ)
  show ?case
  proof (cases "searchI < limI")
    case inside: True
    show ?thesis
    proof (cases "searchJ_loop lines1 lines2 searchI j limJ")
      case None
      with inside "1.prems" have "searchI_loop lines1 lines2 (searchI + 1) limI j limJ = Some (a, b)"
        by (simp add: searchI_loop.simps[of lines1 lines2 searchI limI j limJ])
      with "1.IH"[OF inside None] show ?thesis by simp
    next
      case (Some searchJ)
      with inside "1.prems" have "a = searchI" "b = searchJ"
        by (simp_all add: searchI_loop.simps[of lines1 lines2 searchI limI j limJ])
      with Some inside searchJ_loop_Some[of lines1 lines2 searchI j limJ searchJ] show ?thesis
        by simp
    qed
  next
    case False
    with "1.prems" show ?thesis
      by (simp add: searchI_loop.simps[of lines1 lines2 searchI limI j limJ])
  qed
qed

lemma findNextMatch_Some:
  "findNextMatch l1 l2 i j = Some (a, b) \<Longrightarrow>
     i \<le> a \<and> a < length l1 \<and> j \<le> b \<and> b < length l2 \<and> l1 ! a = l2 ! b"
  unfolding findNextMatch_def by (drule searchI_loop_Some) simp

lemma panel_step_progress:
  assumes "i < length l1 \<or> j < length l2"
    and "panel_step l1 l2 (i, j, bs, n) = (i', j', bs', n')"
  shows "(length l1 - i') + (length l2 - j') < (length l1 - i) + (length l2 - j)"
proof (cases "i < length l1 \<and> j < length l2 \<and> l1 ! i = l2 ! j")
  case True
  with assms(2) show ?thesis by (auto simp: panel_step_def Let_def)
next
  case False
  show ?thesis
  proof (cases "findNextMatch l1 l2 i j")
    case None
    with False assms show ?thesis
      by (auto simp: panel_step_def split: if_splits)
  next
    case (Some m)
    obtain a b where m: "m = (a, b)" by (cases m)
    from Some m have f: "i \<le> a \<and> a < length l1 \<and> j \<le> b \<and> b < length l2 \<and> l1 ! a = l2 ! b"
      using findNextMatch_Some by simp
    with False have "a \<noteq> i \<or> b \<noteq> j" by auto
    moreover from Some m False assms(2) have "i' = a" "j' = b"
      by (auto simp: panel_step_def)
    ultimately show ?thesis using f by auto
  qed
qed

text \<open>
  The \<^verbatim>\<open>while (i < lines1.length || j < lines2.length)\<close> loop. Every iteration moves
  \<open>i\<close> or \<open>j\<close> forward, so the loop ends.
\<close>

function panel_loop :: "string list \<Rightarrow> string list \<Rightarrow> nat \<times> nat \<times> DiffBlock list \<times> int \<Rightarrow> DiffBlock list" where
  "panel_loop lines1 lines2 st =
     (case st of (i, j, pblocks, pblockId) \<Rightarrow>
        if i < length lines1 \<or> j < length lines2
        then panel_loop lines1 lines2 (panel_step lines1 lines2 st)
        else pblocks)"
  by pat_completeness auto
termination
  apply (relation "measure (\<lambda>(lines1, lines2, i, j, pblocks, pblockId). (length lines1 - i) + (length lines2 - j))")
   apply simp
  subgoal for lines1 lines2 st i x j y pblocks pblockId
    using panel_step_progress[of i lines1 j lines2 pblocks pblockId]
    by (cases "panel_step lines1 lines2 (i, j, pblocks, pblockId)") auto
  done

declare panel_loop.simps [simp del]

text \<open>\<^verbatim>\<open>_computeDiff(content1, content2)\<close>.\<close>

definition panel_computeDiff :: "string \<Rightarrow> string \<Rightarrow> DiffBlock list" where
  "panel_computeDiff content1 content2 = panel_loop (split_nl content1) (split_nl content2) (0, 0, [], 0)"


section \<open>DiffApprovePanel: the approval handlers\<close>

text \<open>
  \<^verbatim>\<open>lines.splice(start, deleteCount, ...items)\<close> as the language defines it: a negative start
  counts from the end, the start is clamped to the length and the delete count to what is left.
  The result is the array after the call.
\<close>

definition splice :: "'a list \<Rightarrow> int \<Rightarrow> int \<Rightarrow> 'a list \<Rightarrow> 'a list" where
  "splice xs start deleteCount items =
     (let len = int (length xs);
          actualStart = (if start < 0 then max (len + start) 0 else min start len);
          actualDeleteCount = min (max deleteCount 0) (len - actualStart)
      in take (nat actualStart) xs @ items @ drop (nat (actualStart + actualDeleteCount)) xs)"

datatype ApprovalAction = Approve | Deny

text \<open>
  The fields of \<^verbatim>\<open>DiffApprovePanel\<close> that the handlers read and write, and the two files on
  disk. \<open>p_file1\<close> and \<open>p_file2\<close> are the contents at \<^verbatim>\<open>_file1Uri\<close> and \<^verbatim>\<open>_file2Uri\<close>
  (\<open>None\<close>: the file cannot be read, \<^verbatim>\<open>readFileSync\<close> throws). \<open>p_diffContent\<close> holds the
  blocks of \<^verbatim>\<open>_diffContent\<close> (\<open>None\<close>: undefined). \<open>p_autoOpened\<close> counts the calls of
  \<^verbatim>\<open>_openModifiedFile\<close> made by \<^verbatim>\<open>_checkIfAllBlocksProcessed\<close>. Messages posted to the
  webview and notifications are not part of the state.
\<close>

record PanelState =
  p_file1 :: "string option"
  p_file2 :: "string option"
  p_diffContent :: "DiffBlock list option"
  p_pendingBlocks :: "int set"
  p_autoOpened :: nat

text \<open>\<^verbatim>\<open>_loadDiffContent\<close>: a failed read is caught and leaves \<^verbatim>\<open>_diffContent\<close> as it was.\<close>

definition loadDiffContent :: "PanelState \<Rightarrow> PanelState" where
  "loadDiffContent s =
     (case p_file1 s of
        None \<Rightarrow> s
      | Some file1Content \<Rightarrow>
          (case p_file2 s of
             None \<Rightarrow> s
           | Some file2Content \<Rightarrow>
               s\<lparr> p_diffContent := Some (panel_computeDiff file1Content file2Content) \<rparr>))"

definition nonContextBlocks :: "DiffBlock list \<Rightarrow> DiffBlock list" where
  "nonContextBlocks bs = filter (\<lambda>block. block_type block \<noteq> Context) bs"

text \<open>The \<^verbatim>\<open>"getContent"\<close> message: load, then make every non-context block pending.\<close>

definition getContent :: "PanelState \<Rightarrow> PanelState" where
  "getContent s =
     (let s1 = loadDiffContent s
      in case p_diffContent s1 of
           None \<Rightarrow> s1
         | Some bs \<Rightarrow> s1\<lparr> p_pendingBlocks := set (map block_id (nonContextBlocks bs)) \<rparr>)"

definition checkIfAllBlocksProcessed :: "PanelState \<Rightarrow> PanelState" where
  "checkIfAllBlocksProcessed s =
     (if p_pendingBlocks s = {} then s\<lparr> p_autoOpened := p_autoOpened s + 1 \<rparr> else s)"

text \<open>The \<^verbatim>\<open>switch (block.type)\<close> of the deny branch, applied to the lines of the live file.\<close>

definition revertLines :: "DiffBlock \<Rightarrow> string list \<Rightarrow> string list" where
  "revertLines block lines =
     (case block_type block of
        Addition \<Rightarrow> splice lines (newStart block - 1) (int (length (newLines block))) []
      | Deletion \<Rightarrow> splice lines (newStart block - 1) 0 (oldLines block)
      | Change \<Rightarrow> splice lines (newStart block - 1) (int (length (newLines block))) (oldLines block)
      | Context \<Rightarrow> lines)"

text \<open>
  \<^verbatim>\<open>_handleApproval(blockId, action, updateUI)\<close>. An exception of the deny branch (the file
  cannot be read) is caught: nothing has been written or removed at that point.
\<close>

definition handleApproval :: "PanelState \<Rightarrow> int \<Rightarrow> ApprovalAction \<Rightarrow> bool \<Rightarrow> PanelState" where
  "handleApproval s blockId action updateUI =
     (case p_diffContent s of
        None \<Rightarrow> s
      | Some bs \<Rightarrow>
          (case find (\<lambda>b. block_id b = blockId) bs of
             None \<Rightarrow> s
           | Some block \<Rightarrow>
               (case action of
                  Approve \<Rightarrow>
                    checkIfAllBlocksProcessed (s\<lparr> p_pendingBlocks := p_pendingBlocks s - {blockId} \<rparr>)
                | Deny \<Rightarrow>
                    (case p_file2 s of
                       None \<Rightarrow> s
                     | Some file2Content \<Rightarrow>
                         (let lines = revertLines block (split_nl file2Content);
                              s1 = s\<lparr> p_file2 := Some (join_nl lines),
                                      p_pendingBlocks := p_pendingBlocks s - {blockId} \<rparr>;
                              s2 = (if updateUI then loadDiffContent s1 else s1)
                          in checkIfAllBlocksProcessed s2)))))"

text \<open>\<^verbatim>\<open>for (const block of nonContextBlocks) await this._handleApproval(block.id, "deny", false)\<close>.\<close>

primrec denyEach :: "PanelState \<Rightarrow> DiffBlock list \<Rightarrow> PanelState" where
  "denyEach s [] = s"
| "denyEach s (block # rest) = denyEach (handleApproval s (block_id block) Deny False) rest"

definition handleDenyAll :: "PanelState \<Rightarrow> PanelState" where
  "handleDenyAll s =
     (case p_diffContent s of
        None \<Rightarrow> s
      | Some bs \<Rightarrow>
          (let s1 = denyEach s (nonContextBlocks bs);
               s2 = loadDiffContent s1;
               s3 = s2\<lparr> p_pendingBlocks := {} \<rparr>
           in checkIfAllBlocksProcessed s3))"

definition handleApproveAll :: "PanelState \<Rightarrow> PanelState" where
  "handleApproveAll s =
     (case p_diffContent s of
        None \<Rightarrow> s
      | Some bs \<Rightarrow> checkIfAllBlocksProcessed (s\<lparr> p_pendingBlocks := {} \<rparr>))"

text \<open>A panel opened on two readable files, before the webview has asked for the content.\<close>

definition newPanel :: "string \<Rightarrow> string \<Rightarrow> PanelState" where
  "newPanel file1Content file2Content =
     \<lparr> p_file1 = Some file1Content, p_file2 = Some file2Content, p_diffContent = None,
       p_pendingBlocks = {}, p_autoOpened = 0 \<rparr>"

section \<open>findRelatedBlocks\<close>

text \<open>
  \<^verbatim>\<open>DiffFile.findRelatedBlocks(blockId)\<close> of \<^verbatim>\<open>DiffApproveProvider.ts\<close>: "a simplified
  implementation that just returns an array with the block itself", a fresh block that carries
  only the id.
\<close>

definition DiffFile_findRelatedBlocks :: "int \<Rightarrow> DiffBlock list" where
  "DiffFile_findRelatedBlocks blockId =
     [\<lparr> block_id = blockId, block_type = Change, oldLines = [], newLines = [],
        oldStart = 0, newStart = 0 \<rparr>]"

text \<open>
  The single-panel provider (the second \<^verbatim>\<open>DiffApproveProvider\<close> class of the sources) scans
  the stored blocks. \<open>findIndex\<close> is \<^verbatim>\<open>blocks.indexOf(blocks.find((block) => block.id === blockId))\<close>:
  the position of the first block with that id.
\<close>

fun findIndex :: "('a \<Rightarrow> bool) \<Rightarrow> 'a list \<Rightarrow> nat option" where
  "findIndex P [] = None"
| "findIndex P (x # xs) = (if P x then Some 0 else map_option Suc (findIndex P xs))"

text \<open>
  \<^verbatim>\<open>for (let i = targetIndex; i >= 0; i--) { if (context) break; blocks.unshift(block) }\<close>
\<close>

fun lookBackwards :: "DiffBlock list \<Rightarrow> nat \<Rightarrow> DiffBlock list \<Rightarrow> DiffBlock list" where
  "lookBackwards bs 0 acc =
     (if block_type (bs ! 0) = Context then acc else bs ! 0 # acc)"
| "lookBackwards bs (Suc i) acc =
     (if block_type (bs ! Suc i) = Context then acc else lookBackwards bs i (bs ! Suc i # acc))"

text \<open>
  \<^verbatim>\<open>for (let i = targetIndex + 1; i < blocks.length; i++) { if (context) break; blocks.push(block) }\<close>
\<close>

function lookForwards :: "DiffBlock list \<Rightarrow> nat \<Rightarrow> DiffBlock list \<Rightarrow> DiffBlock list" where
  "lookForwards bs i acc =
     (if i < length bs then
        (if block_type (bs ! i) = Context then acc else lookForwards bs (i + 1) (acc @ [bs ! i]))
      else acc)"
  by pat_completeness auto
termination
  by (relation "measure (\<lambda>(bs, i, acc). length bs - i)") auto

declare lookForwards.simps [simp del]

text \<open>\<^verbatim>\<open>findRelatedBlocks(blockId)\<close>; the first argument is \<^verbatim>\<open>this.diffContent?.blocks\<close>.\<close>

definition findRelatedBlocks :: "DiffBlock list option \<Rightarrow> int \<Rightarrow> DiffBlock list" where
  "findRelatedBlocks diffContent blockId =
     (case diffContent of
        None \<Rightarrow> []
      | Some bs \<Rightarrow>
          (case findIndex (\<lambda>block. block_id block = blockId) bs of
             None \<Rightarrow> []
           | Some targetIndex \<Rightarrow>
               lookForwards bs (targetIndex + 1) (lookBackwards bs targetIndex [])))"

section \<open>DiffFile: the message handler and the dispose handler\<close>

text \<open>
  The state of one \<^verbatim>\<open>DiffFile\<close> together with the static \<^verbatim>\<open>approvedFiles\<close> set of
  \<^verbatim>\<open>DiffApproveProvider\<close>. \<open>pendingBlocks\<close> is a JavaScript \<^verbatim>\<open>Set\<close>: a list without
  duplicates in insertion order. \<open>blockCalls\<close> records the calls of the \<^verbatim>\<open>onBlockApprove\<close>
  callback and \<open>allProcessedCalls\<close> counts the calls of \<^verbatim>\<open>onAllBlocksProcessed\<close>.
\<close>

record DiffFileState =
  pendingBlocks :: "int list"
  hasCalledAllBlocksProcessed :: bool
  approvedFiles :: "string set"
  blockCalls :: "(int \<times> bool) list"
  allProcessedCalls :: nat

definition isFileApproved :: "DiffFileState \<Rightarrow> string \<Rightarrow> bool" where
  "isFileApproved s filePath = (filePath \<in> approvedFiles s)"

definition markFileAsApproved :: "string \<Rightarrow> DiffFileState \<Rightarrow> DiffFileState" where
  "markFileAsApproved filePath s = s\<lparr> approvedFiles := insert filePath (approvedFiles s) \<rparr>"

text \<open>
  \<^verbatim>\<open>updateContent\<close> on a fresh object: pending becomes \<^verbatim>\<open>new Set(ids)\<close> of the non-context
  blocks (\<open>newSet\<close> keeps the first occurrence of each id); the flag and the counters start
  fresh with the object.
\<close>

fun newSet :: "'a list \<Rightarrow> 'a list" where
  "newSet [] = []"
| "newSet (x # xs) = x # removeAll x (newSet xs)"

definition newDiffFile :: "string set \<Rightarrow> DiffBlock list \<Rightarrow> DiffFileState" where
  "newDiffFile approved bs =
     \<lparr> pendingBlocks = newSet (map block_id (nonContextBlocks bs)),
       hasCalledAllBlocksProcessed = False, approvedFiles = approved,
       blockCalls = [], allProcessedCalls = 0 \<rparr>"

text \<open>
  The guarded completion block shared by both message branches:
  \<^verbatim>\<open>if (!this.hasCalledAllBlocksProcessed) { this.hasCalledAllBlocksProcessed = true; markFileAsApproved(filePath); await onAllBlocksProcessed() }\<close>.
  An exception of the callback is caught and changes nothing more.
\<close>

definition completeOnce :: "string \<Rightarrow> DiffFileState \<Rightarrow> DiffFileState" where
  "completeOnce filePath s =
     (if \<not> hasCalledAllBlocksProcessed s then
        (markFileAsApproved filePath (s\<lparr> hasCalledAllBlocksProcessed := True \<rparr>))
          \<lparr> allProcessedCalls := allProcessedCalls s + 1 \<rparr>
      else s)"

text \<open>
  \<^verbatim>\<open>for (const block of blocks) { await this.onBlockApprove(block.id, approved); this.pendingBlocks.delete(block.id) }\<close>.
  The callback is a parameter: \<open>onBlockApprove id approved\<close> is \<open>True\<close> when its promise
  resolves. When it rejects, the handler ends there (second component \<open>False\<close>).
\<close>

fun processGroup ::
  "(int \<Rightarrow> bool \<Rightarrow> bool) \<Rightarrow> bool \<Rightarrow> DiffBlock list \<Rightarrow> DiffFileState \<Rightarrow> DiffFileState \<times> bool" where
  "processGroup onBlockApprove approved [] s = (s, True)"
| "processGroup onBlockApprove approved (block # rest) s =
     (let s1 = s\<lparr> blockCalls := blockCalls s @ [(block_id block, approved)] \<rparr>
      in if onBlockApprove (block_id block) approved
         then processGroup onBlockApprove approved rest
                (s1\<lparr> pendingBlocks := removeAll (block_id block) (pendingBlocks s1) \<rparr>)
         else (s1, False))"

text \<open>\<^verbatim>\<open>for (const blockId of this.pendingBlocks) await this.onBlockApprove(blockId, isApprove)\<close>.\<close>

fun callAll ::
  "(int \<Rightarrow> bool \<Rightarrow> bool) \<Rightarrow> bool \<Rightarrow> int list \<Rightarrow> DiffFileState \<Rightarrow> DiffFileState \<times> bool" where
  "callAll onBlockApprove isApprove [] s = (s, True)"
| "callAll onBlockApprove isApprove (blockId # rest) s =
     (let s1 = s\<lparr> blockCalls := blockCalls s @ [(blockId, isApprove)] \<rparr>
      in if onBlockApprove blockId isApprove
         then callAll onBlockApprove isApprove rest s1
         else (s1, False))"

text \<open>
  The handler of \<^verbatim>\<open>onDidReceiveMessage\<close> for a message \<^verbatim>\<open>{ type, blockId? }\<close>, run as one
  atomic step.
\<close>

definition handleMessage ::
  "(int \<Rightarrow> bool \<Rightarrow> bool) \<Rightarrow> string \<Rightarrow> DiffFileState \<Rightarrow> string \<Rightarrow> int option \<Rightarrow> DiffFileState" where
  "handleMessage onBlockApprove filePath s msgType msgBlockId =
     (if msgType = ''approve'' \<or> msgType = ''deny'' then
        (case msgBlockId of
           None \<Rightarrow> s
         | Some blockId \<Rightarrow>
             (let related = DiffFile_findRelatedBlocks blockId
              in if length related > 0 then
                   (case processGroup onBlockApprove (msgType = ''approve'') related s of
                      (s1, False) \<Rightarrow> s1
                    | (s1, True) \<Rightarrow>
                        if length (pendingBlocks s1) = 0 then completeOnce filePath s1 else s1)
                 else s))
      else if msgType = ''approveAll'' \<or> msgType = ''denyAll'' then
        (case callAll onBlockApprove (msgType = ''approveAll'') (pendingBlocks s) s of
           (s1, False) \<Rightarrow> s1
         | (s1, True) \<Rightarrow> completeOnce filePath (s1\<lparr> pendingBlocks := [] \<rparr>))
      else s)"

text \<open>
  The handler of \<^verbatim>\<open>onDidDispose\<close>: the panel was closed, by the user or by the program.
\<close>

definition onDidDispose :: "string \<Rightarrow> DiffFileState \<Rightarrow> DiffFileState" where
  "onDidDispose filePath s =
     (if length (pendingBlocks s) > 0 then s
      else if \<not> hasCalledAllBlocksProcessed s then
        (markFileAsApproved filePath (s\<lparr> hasCalledAllBlocksProcessed := True \<rparr>))
          \<lparr> allProcessedCalls := allProcessedCalls s + 1 \<rparr>
      else s)"

datatype Event = Message string "int option" | PanelDisposed

definition step :: "(int \<Rightarrow> bool \<Rightarrow> bool) \<Rightarrow> string \<Rightarrow> DiffFileState \<Rightarrow> Event \<Rightarrow> DiffFileState" where
  "step onBlockApprove filePath s e =
     (case e of
        Message msgType msgBlockId \<Rightarrow> handleMessage onBlockApprove filePath s msgType msgBlockId
      | PanelDisposed \<Rightarrow> onDidDispose filePath s)"

text \<open>A run of one session: the events handled one after the other.\<close>

primrec run :: "(int \<Rightarrow> bool \<Rightarrow> bool) \<Rightarrow> string \<Rightarrow> DiffFileState \<Rightarrow> Event list \<Rightarrow> DiffFileState" where
  "run onBlockApprove filePath s [] = s"
| "run onBlockApprove filePath s (e # es) = run onBlockApprove filePath (step onBlockApprove filePath s e) es"

section \<open>Properties stated by the specification, and example inputs\<close>

text \<open>
  The kind invariant of a block: a context block has equal sides, an addition has no old
  lines, a deletion has no new lines, a change has lines on both sides.
\<close>

definition kindInvariant :: "DiffBlock \<Rightarrow> bool" where
  "kindInvariant b =
     (case block_type b of
        Context \<Rightarrow> oldLines b = newLines b
      | Addition \<Rightarrow> oldLines b = []
      | Deletion \<Rightarrow> newLines b = []
      | Change \<Rightarrow> oldLines b \<noteq> [] \<and> newLines b \<noteq> [])"

text \<open>What holds of the block that \<^verbatim>\<open>computeDiff\<close> is still filling.\<close>

definition pendingInvariant :: "DiffBlock \<Rightarrow> bool" where
  "pendingInvariant b =
     (case block_type b of
        Context \<Rightarrow> False
      | Addition \<Rightarrow> oldLines b = [] \<and> newLines b \<noteq> []
      | Deletion \<Rightarrow> newLines b = [] \<and> oldLines b \<noteq> []
      | Change \<Rightarrow> oldLines b \<noteq> [] \<and> newLines b \<noteq> [])"

definition stateInvariant :: "DiffState \<Rightarrow> bool" where
  "stateInvariant st =
     (list_all kindInvariant (c_blocks st) \<and>
      (case c_pendingBlock st of None \<Rightarrow> True | Some pb \<Rightarrow> pendingInvariant pb))"

text \<open>
  The reversion of one block as the specification words it, as a relation between the lines of
  the live file and the lines after the reversion. The block's recorded new-side position
  splits the live lines into the lines before it and the rest. For an addition the rest starts
  with the lines the block introduced, and they are removed. For a deletion the recorded old
  lines are inserted at that position. For a change the rest starts with the block's new lines,
  and the recorded old lines take their place.
\<close>

definition revertsEffect :: "DiffBlock \<Rightarrow> string list \<Rightarrow> string list \<Rightarrow> bool" where
  "revertsEffect block lines result =
     (\<exists>pre post. length pre = nat (newStart block - 1) \<and>
        (case block_type block of
           Addition \<Rightarrow> lines = pre @ newLines block @ post \<and> result = pre @ post
         | Deletion \<Rightarrow> lines = pre @ post \<and> result = pre @ oldLines block @ post
         | Change \<Rightarrow> lines = pre @ newLines block @ post \<and> result = pre @ oldLines block @ post
         | Context \<Rightarrow> False))"

text \<open>
  What ties a block of \<open>panel_computeDiff\<close> to the new text: its new lines are the lines of
  the new text that start at \<open>newStart - 1\<close>, and they end at or before line \<open>j\<close>.
\<close>

definition newSideOk :: "string list \<Rightarrow> nat \<Rightarrow> DiffBlock \<Rightarrow> bool" where
  "newSideOk lines2 j b =
     (1 \<le> newStart b
      \<and> nat (newStart b - 1) + length (newLines b) \<le> j
      \<and> slice lines2 (nat (newStart b - 1)) (nat (newStart b - 1) + length (newLines b)) = newLines b)"

text \<open>
  The invariant of the \<^verbatim>\<open>while\<close> loop for the new side: every block so far lies within the
  first \<open>j\<close> lines, and a context block that is still being filled ends exactly at \<open>j\<close>.
\<close>

definition newSideInv :: "string list \<Rightarrow> nat \<times> nat \<times> DiffBlock list \<times> int \<Rightarrow> bool" where
  "newSideInv lines2 st =
     (case st of (i, j, pblocks, pblockId) \<Rightarrow>
        j \<le> length lines2
        \<and> list_all (newSideOk lines2 j) pblocks
        \<and> (pblocks = [] \<or> block_type (last pblocks) \<noteq> Context
            \<or> nat (newStart (last pblocks) - 1) + length (newLines (last pblocks)) = j))"

text \<open>The two texts that a list of parts is a line diff of.\<close>

definition oldText :: "Part list \<Rightarrow> string" where
  "oldText parts = concat (map part_value (filter (\<lambda>p. \<not> part_added p) parts))"

definition newText :: "Part list \<Rightarrow> string" where
  "newText parts = concat (map part_value (filter (\<lambda>p. \<not> part_removed p) parts))"

definition mkPart :: "string \<Rightarrow> int \<Rightarrow> bool \<Rightarrow> bool \<Rightarrow> Part" where
  "mkPart v n a r = \<lparr> part_value = v, part_count = Some n, part_added = a, part_removed = r \<rparr>"

definition ctxBlock :: "int \<Rightarrow> string list \<Rightarrow> int \<Rightarrow> int \<Rightarrow> DiffBlock" where
  "ctxBlock n ls os ns = \<lparr> block_id = n, block_type = Context, oldLines = ls, newLines = ls,
                           oldStart = os, newStart = ns \<rparr>"

text \<open>
  The parts that \<^verbatim>\<open>diffLines("a\nb\nc\n", "a\nx\nc\n")\<close> returns (Scenario A of the
  specification): one unchanged line, one removed, one added, one unchanged, each with its
  newline.
\<close>

definition scenarioA_parts :: "Part list" where
  "scenarioA_parts =
     [mkPart ''a\<newline>'' 1 False False, mkPart ''b\<newline>'' 1 False True,
      mkPart ''x\<newline>'' 1 True False, mkPart ''c\<newline>'' 1 False False]"

text \<open>The single unchanged part of two equal texts \<^verbatim>\<open>"a\n\nb"\<close> with a blank second line.\<close>

definition blankLine_parts :: "Part list" where
  "blankLine_parts = [mkPart ''a\<newline>\<newline>b'' 3 False False]"

text \<open>
  A review with two additions: the original file is \<^verbatim>\<open>"a\nb"\<close>, the modified file is
  \<^verbatim>\<open>"x\na\ny\nb"\<close>.
\<close>

definition example_blocks :: "DiffBlock list" where
  "example_blocks =
     [mkBlock 0 Addition 0 [] 0 [''x''], mkBlock 1 Context 0 [''a''] 1 [''a''],
      mkBlock 2 Addition 1 [] 2 [''y''], mkBlock 3 Context 1 [''b''] 3 [''b'']]"

definition example_panel :: PanelState where
  "example_panel = getContent (newPanel ''a\<newline>b'' ''x\<newline>a\<newline>y\<newline>b'')"

section \<open>The diff computations\<close>

subsection \<open>Lines of a part\<close>

lemma split_nl_nonempty: "split_nl s \<noteq> []"
  by (induction s) (auto split: list.splits)

lemma split_nl_single_empty: "split_nl s = [[]] \<Longrightarrow> s = []"
  using split_nl_nonempty[of "tl s"] by (cases s) (auto split: list.splits if_splits)

lemma last_split_nl_empty: "(last (split_nl s) = []) = (s = [] \<or> last s = CHR 0x0A)"
proof (induction s)
  case Nil
  then show ?case by simp
next
  case (Cons c cs)
  then show ?case
    using split_nl_nonempty[of cs] split_nl_single_empty[of cs]
    by (cases "split_nl cs") (auto split: list.splits)
qed

lemma part_lines_nonempty: "part_value p \<noteq> [] \<Longrightarrow> part_lines p \<noteq> []"
proof (cases "endsWith_nl (part_value p)")
  case True
  then show ?thesis by (simp add: part_lines_def split_nl_nonempty)
next
  case False
  assume ne: "part_value p \<noteq> []"
  with False have "last (split_nl (part_value p)) \<noteq> []"
    by (simp add: last_split_nl_empty endsWith_nl_def)
  moreover have "last (split_nl (part_value p)) \<in> set (split_nl (part_value p))"
    using split_nl_nonempty by simp
  ultimately show ?thesis
    by (auto simp: part_lines_def filter_empty_conv)
qed

subsection \<open>The kind invariant\<close>

lemma pendingInvariant_kind: "pendingInvariant b \<Longrightarrow> kindInvariant b"
  by (auto simp: pendingInvariant_def kindInvariant_def split: BlockType.splits)

lemma pushPending_invariant: "stateInvariant st \<Longrightarrow> list_all kindInvariant (pushPending st)"
  by (auto simp: stateInvariant_def pushPending_def pendingInvariant_kind split: option.splits)

lemma step_invariant:
  assumes "stateInvariant st"
    and "(part_added p \<or> part_removed p) \<longrightarrow> part_value p \<noteq> []"
  shows "stateInvariant (computeDiff_step st p)"
proof (cases "part_added p \<or> part_removed p")
  case False
  then show ?thesis
    using pushPending_invariant[OF assms(1)]
    by (simp add: computeDiff_step_def stateInvariant_def Let_def kindInvariant_def)
next
  case True
  with assms(2) have ne: "part_lines p \<noteq> []" by (simp add: part_lines_nonempty)
  show ?thesis
    using True ne assms(1) pushPending_invariant[OF assms(1)]
    by (auto simp: computeDiff_step_def openBlock_def startsNewBlock_def stateInvariant_def Let_def
        pendingInvariant_def split: option.splits BlockType.splits)
qed

lemma loop_invariant:
  "stateInvariant st \<Longrightarrow> \<forall>p\<in>set ps. (part_added p \<or> part_removed p) \<longrightarrow> part_value p \<noteq> [] \<Longrightarrow>
   stateInvariant (computeDiff_loop st ps)"
  by (induction ps arbitrary: st) (auto simp: step_invariant)


lemma computeDiff_kind:
  assumes "\<forall>p\<in>set (diffLines content1 content2). (part_added p \<or> part_removed p) \<longrightarrow> part_value p \<noteq> []"
  shows "list_all kindInvariant (computeDiff diffLines content1 content2)"
proof -
  have "stateInvariant initDiffState" by (simp add: stateInvariant_def initDiffState_def)
  then have "stateInvariant (computeDiff_loop initDiffState (diffLines content1 content2))"
    using assms by (rule loop_invariant)
  then show ?thesis
    unfolding computeDiff_def by (rule pushPending_invariant)
qed

lemma slice_nonempty: "i < a \<Longrightarrow> a \<le> length xs \<Longrightarrow> slice xs i a \<noteq> []"
  by (simp add: slice_def)

lemma panel_step_kind:
  assumes "list_all kindInvariant bs"
    and "panel_step l1 l2 (i, j, bs, n) = (i', j', bs', n')"
  shows "list_all kindInvariant bs'"
proof (cases "i < length l1 \<and> j < length l2 \<and> l1 ! i = l2 ! j")
  case True
  show ?thesis
  proof (cases "bs = [] \<or> block_type (last bs) \<noteq> Context")
    case opened: True
    with True assms show ?thesis
      by (auto simp: panel_step_def Let_def kindInvariant_def mkBlock_def)
  next
    case False
    then have ne: "bs \<noteq> []" and ctx: "block_type (last bs) = Context" by auto
    from assms(1) ne have "kindInvariant (last bs)" "list_all kindInvariant (butlast bs)"
      by (auto simp: list_all_iff dest: in_set_butlastD)
    with True False assms(2) ctx show ?thesis
      by (auto simp: panel_step_def Let_def kindInvariant_def)
  qed
next
  case False
  show ?thesis
  proof (cases "findNextMatch l1 l2 i j")
    case None
    with False assms show ?thesis
      by (auto simp: panel_step_def kindInvariant_def mkBlock_def split: if_splits)
  next
    case (Some m)
    obtain a b where m: "m = (a, b)" by (cases m)
    from Some m have f: "i \<le> a \<and> a < length l1 \<and> j \<le> b \<and> b < length l2 \<and> l1 ! a = l2 ! b"
      using findNextMatch_Some by simp
    then have "a > i \<Longrightarrow> slice l1 i a \<noteq> []" "b > j \<Longrightarrow> slice l2 j b \<noteq> []"
      by (simp_all add: slice_nonempty)
    with Some m False assms show ?thesis
      by (auto simp: panel_step_def kindInvariant_def mkBlock_def split: if_splits)
  qed
qed

lemma panel_loop_kind:
  "list_all kindInvariant (fst (snd (snd st))) \<Longrightarrow> list_all kindInvariant (panel_loop l1 l2 st)"
proof (induction l1 l2 st rule: panel_loop.induct)
  case (1 lines1 lines2 st)
  obtain i j bs n where st: "st = (i, j, bs, n)" by (cases st)
  show ?case
  proof (cases "i < length lines1 \<or> j < length lines2")
    case True
    obtain i' j' bs' n' where ps: "panel_step lines1 lines2 st = (i', j', bs', n')"
      by (cases "panel_step lines1 lines2 st")
    from "1.prems" st ps have "list_all kindInvariant bs'"
      using panel_step_kind[of bs lines1 lines2 i j n i' j' bs' n'] by simp
    with "1.IH"[of i "(j, bs, n)" j "(bs, n)" bs n] st True ps show ?thesis
      by (subst panel_loop.simps) simp
  next
    case False
    with "1.prems" st show ?thesis by (subst panel_loop.simps) simp
  qed
qed

lemma panel_computeDiff_kind: "list_all kindInvariant (panel_computeDiff content1 content2)"
  unfolding panel_computeDiff_def by (rule panel_loop_kind) simp

text \<open>
  C5. Every block that a diff computation produces satisfies the kind invariant: a context
  block has \<open>oldLines = newLines\<close>, an addition block has no old lines, a deletion block has
  no new lines, and a change block has lines on both sides. This holds for \<open>computeDiff\<close>
  on every line diff whose added and removed parts are not empty (a line diff never reports an
  empty change), and for \<open>panel_computeDiff\<close> on every pair of texts.
\<close>

theorem kind_invariant_holds:
  assumes "\<forall>p\<in>set (diffLines content1 content2). (part_added p \<or> part_removed p) \<longrightarrow> part_value p \<noteq> []"
  shows "(\<forall>b\<in>set (computeDiff diffLines content1 content2). kindInvariant b)
       \<and> (\<forall>b\<in>set (panel_computeDiff content1 content2). kindInvariant b)"
  using assms computeDiff_kind[of diffLines content1 content2]
    panel_computeDiff_kind[of content1 content2]
  by (simp add: list_all_iff)

theorem kind_invariant_holds_witness:
  "list_all kindInvariant
     (computeDiff (\<lambda>content1 content2. scenarioA_parts) ''a\<newline>b\<newline>c\<newline>'' ''a\<newline>x\<newline>c\<newline>'')
   \<and> list_all kindInvariant (panel_computeDiff ''a\<newline>b\<newline>c\<newline>'' ''a\<newline>x\<newline>c\<newline>'')"
proof -
  have "\<forall>p\<in>set scenarioA_parts. (part_added p \<or> part_removed p) \<longrightarrow> part_value p \<noteq> []"
    by (simp add: scenarioA_parts_def mkPart_def)
  then show ?thesis
    using kind_invariant_holds[of "\<lambda>content1 content2. scenarioA_parts"
        "''a\<newline>b\<newline>c\<newline>''" "''a\<newline>x\<newline>c\<newline>''"]
    by (simp add: list_all_iff)
qed

subsection \<open>The line filter on Scenario A\<close>

lemma scenarioA_blocks:
  "computeDiff (\<lambda>content1 content2. scenarioA_parts) ''a\<newline>b\<newline>c\<newline>'' ''a\<newline>x\<newline>c\<newline>'' =
     [ctxBlock 0 [''a'', []] 1 1,
      \<lparr> block_id = 1, block_type = Change, oldLines = [''b'', []], newLines = [''x'', []],
        oldStart = 2, newStart = 2 \<rparr>,
      ctxBlock 2 [''c'', []] 3 3]"
  by (simp add: computeDiff_def scenarioA_parts_def mkPart_def computeDiff_step_def openBlock_def
      startsNewBlock_def pushPending_def initDiffState_def part_lines_def endsWith_nl_def
      count_or_0_def ctxBlock_def Let_def)

text \<open>
  C7. The claim is that no emitted block holds a phantom empty line that comes from a trailing
  newline. The filter keeps an empty line exactly when the part ends with a newline, so on
  Scenario A (old text \<^verbatim>\<open>"a\nb\nc\n"\<close>, new text \<^verbatim>\<open>"a\nx\nc\n"\<close>) every block ends
  with the empty line that the split of its part produced: the code emits
  \<open>[a, ""]\<close>, \<open>[b, ""] / [x, ""]\<close>, \<open>[c, ""]\<close> where the claim promises
  \<open>[a]\<close>, \<open>[b] / [x]\<close>, \<open>[c]\<close>.
\<close>

theorem phantom_lines_example:
  "oldText scenarioA_parts = ''a\<newline>b\<newline>c\<newline>''
   \<and> newText scenarioA_parts = ''a\<newline>x\<newline>c\<newline>''
   \<and> computeDiff (\<lambda>content1 content2. scenarioA_parts) ''a\<newline>b\<newline>c\<newline>'' ''a\<newline>x\<newline>c\<newline>'' =
     [ctxBlock 0 [''a'', []] 1 1,
      \<lparr> block_id = 1, block_type = Change, oldLines = [''b'', []], newLines = [''x'', []],
        oldStart = 2, newStart = 2 \<rparr>,
      ctxBlock 2 [''c'', []] 3 3]"
  by (simp add: scenarioA_blocks) (simp add: oldText_def newText_def scenarioA_parts_def mkPart_def)

text \<open>
  C1. The claim is that the old lines of the blocks, concatenated, are the lines of the old
  text, and the new lines those of the new text. On Scenario A the old side of the blocks is
  \<open>[a, "", b, "", c, ""]\<close>, which is neither the three lines of the old text nor its split
  at newlines. On two equal texts \<^verbatim>\<open>"a\n\nb"\<close> the single context block is \<open>[a, b]\<close>:
  the blank second line is lost, because the part does not end with a newline.
\<close>

theorem roundtrip_example:
  "concat (map oldLines (computeDiff (\<lambda>content1 content2. scenarioA_parts) ''a\<newline>b\<newline>c\<newline>'' ''a\<newline>x\<newline>c\<newline>''))
     = [''a'', [], ''b'', [], ''c'', []]
   \<and> concat (map newLines (computeDiff (\<lambda>content1 content2. scenarioA_parts) ''a\<newline>b\<newline>c\<newline>'' ''a\<newline>x\<newline>c\<newline>''))
     = [''a'', [], ''x'', [], ''c'', []]
   \<and> split_nl ''a\<newline>b\<newline>c\<newline>'' = [''a'', ''b'', ''c'', []]
   \<and> oldText blankLine_parts = ''a\<newline>\<newline>b''
   \<and> concat (map oldLines (computeDiff (\<lambda>content1 content2. blankLine_parts) ''a\<newline>\<newline>b'' ''a\<newline>\<newline>b''))
     = [''a'', ''b'']
   \<and> split_nl ''a\<newline>\<newline>b'' = [''a'', [], ''b'']"
proof -
  have "computeDiff (\<lambda>content1 content2. blankLine_parts) ''a\<newline>\<newline>b'' ''a\<newline>\<newline>b''
          = [ctxBlock 0 [''a'', ''b''] 1 1]"
    by (simp add: computeDiff_def blankLine_parts_def mkPart_def computeDiff_step_def
        pushPending_def initDiffState_def part_lines_def endsWith_nl_def
        count_or_0_def ctxBlock_def Let_def)
  then show ?thesis
    by (simp add: scenarioA_blocks ctxBlock_def oldText_def blankLine_parts_def mkPart_def)
qed

section \<open>The approval handlers of the panel\<close>

lemma checkIfAllBlocksProcessed_frame [simp]:
  "p_file1 (checkIfAllBlocksProcessed s) = p_file1 s"
  "p_file2 (checkIfAllBlocksProcessed s) = p_file2 s"
  "p_diffContent (checkIfAllBlocksProcessed s) = p_diffContent s"
  "p_pendingBlocks (checkIfAllBlocksProcessed s) = p_pendingBlocks s"
  by (simp_all add: checkIfAllBlocksProcessed_def)

lemma loadDiffContent_frame [simp]:
  "p_file1 (loadDiffContent s) = p_file1 s"
  "p_file2 (loadDiffContent s) = p_file2 s"
  "p_pendingBlocks (loadDiffContent s) = p_pendingBlocks s"
  by (simp_all add: loadDiffContent_def split: option.splits)

lemma example_diff:
  "panel_computeDiff ''a\<newline>b'' ''x\<newline>a\<newline>y\<newline>b'' = example_blocks"
  by code_simp

lemma example_loaded:
  "getContent (newPanel ''a\<newline>b'' ''x\<newline>a\<newline>y\<newline>b'') =
     \<lparr> p_file1 = Some ''a\<newline>b'', p_file2 = Some ''x\<newline>a\<newline>y\<newline>b'',
       p_diffContent = Some example_blocks, p_pendingBlocks = {0, 2}, p_autoOpened = 0 \<rparr>"
  by (simp add: getContent_def newPanel_def loadDiffContent_def example_diff)
     (simp add: example_blocks_def nonContextBlocks_def mkBlock_def)

lemma example_panel_eq:
  "example_panel =
     \<lparr> p_file1 = Some ''a\<newline>b'', p_file2 = Some ''x\<newline>a\<newline>y\<newline>b'',
       p_diffContent = Some example_blocks, p_pendingBlocks = {0, 2}, p_autoOpened = 0 \<rparr>"
  by (simp add: example_panel_def example_loaded)

lemma splice_take_drop:
  assumes "0 \<le> start" and "0 \<le> deleteCount"
  shows "splice xs start deleteCount items
           = take (nat start) xs @ items @ drop (nat start + nat deleteCount) xs"
proof (cases "start \<le> int (length xs)")
  case True
  then have a: "min start (int (length xs)) = start" by simp
  show ?thesis
  proof (cases "deleteCount \<le> int (length xs) - start")
    case True
    with assms a show ?thesis
      by (simp add: splice_def Let_def nat_add_distrib)
  next
    case False
    with assms a \<open>start \<le> int (length xs)\<close> show ?thesis
      by (simp add: splice_def Let_def)
  qed
next
  case False
  with assms show ?thesis
    by (simp add: splice_def Let_def)
qed

subsection \<open>The new side of the blocks of the panel's diff\<close>

lemma newSideOk_mono: "newSideOk lines2 j b \<Longrightarrow> j \<le> j' \<Longrightarrow> newSideOk lines2 j' b"
  by (simp add: newSideOk_def)

lemma newSideOk_all_mono:
  "list_all (newSideOk lines2 j) bs \<Longrightarrow> j \<le> j' \<Longrightarrow> list_all (newSideOk lines2 j') bs"
  by (auto simp: list_all_iff intro: newSideOk_mono)

lemma slice_one: "j < length xs \<Longrightarrow> slice xs j (Suc j) = [xs ! j]"
  by (simp add: slice_def take_Suc_conv_app_nth)

lemma slice_empty: "slice xs j j = []"
  by (simp add: slice_def)

lemma slice_snoc: "p + n < length xs \<Longrightarrow> slice xs p (Suc (p + n)) = slice xs p (p + n) @ [xs ! (p + n)]"
  by (simp add: slice_def take_Suc_conv_app_nth)

lemma slice_length: "a \<le> b \<Longrightarrow> b \<le> length xs \<Longrightarrow> length (slice xs a b) = b - a"
  by (simp add: slice_def)

lemma newSideOk_fresh:
  assumes "j \<le> b" and "b \<le> length lines2"
  shows "newSideOk lines2 b (mkBlock n t i old j (slice lines2 j b))"
  using assms by (simp add: newSideOk_def mkBlock_def slice_length)

lemma newSideOk_none: "newSideOk lines2 j (mkBlock n t i old j [])"
  by (simp add: newSideOk_def mkBlock_def slice_empty)

lemma newSideOk_single:
  "j < length lines2 \<Longrightarrow> newSideOk lines2 (Suc j) (mkBlock n t i old j [lines2 ! j])"
  by (simp add: newSideOk_def mkBlock_def slice_one)


lemma newSideInv_step:
  assumes inv: "newSideInv l2 (i, j, bs, n)"
    and cond: "i < length l1 \<or> j < length l2"
  shows "newSideInv l2 (panel_step l1 l2 (i, j, bs, n))"
proof -
  from inv have jl: "j \<le> length l2" and all: "list_all (newSideOk l2 j) bs"
    and lastc: "bs = [] \<or> block_type (last bs) \<noteq> Context
                \<or> nat (newStart (last bs) - 1) + length (newLines (last bs)) = j"
    by (simp_all add: newSideInv_def)
  show ?thesis
  proof (cases "i < length l1 \<and> j < length l2 \<and> l1 ! i = l2 ! j")
    case True
    then have j: "j < length l2" by simp
    from all have all': "list_all (newSideOk l2 (Suc j)) bs"
      by (rule newSideOk_all_mono) simp
    show ?thesis
    proof (cases "bs = [] \<or> block_type (last bs) \<noteq> Context")
      case opened: True
      let ?b = "(mkBlock n Context i [] j [])\<lparr> oldLines := [l1 ! i], newLines := [l2 ! j] \<rparr>"
      have ok: "newSideOk l2 (Suc j) ?b"
        using j by (simp add: newSideOk_def mkBlock_def slice_one)
      have e: "nat (newStart ?b - 1) + length (newLines ?b) = Suc j"
        by (simp add: mkBlock_def)
      have "panel_step l1 l2 (i, j, bs, n) = (i + 1, j + 1, bs @ [?b], n + 1)"
        using True opened by (simp add: panel_step_def Let_def mkBlock_def)
      with all' ok e j show ?thesis
        by (simp add: newSideInv_def)
    next
      case False
      then have ne: "bs \<noteq> []" and ctx: "block_type (last bs) = Context" by auto
      with lastc have e: "nat (newStart (last bs) - 1) + length (newLines (last bs)) = j" by simp
      let ?p = "nat (newStart (last bs) - 1)" and ?k = "length (newLines (last bs))"
      let ?b = "(last bs)\<lparr> oldLines := oldLines (last bs) @ [l1 ! i],
                             newLines := newLines (last bs) @ [l2 ! j] \<rparr>"
      from all ne have lastok: "newSideOk l2 j (last bs)"
        by (simp add: list_all_iff)
      from all' have butl: "list_all (newSideOk l2 (Suc j)) (butlast bs)"
        by (auto simp: list_all_iff dest: in_set_butlastD)
      have "slice l2 ?p (Suc (?p + ?k)) = slice l2 ?p (?p + ?k) @ [l2 ! (?p + ?k)]"
        using e j by (intro slice_snoc) simp
      with lastok e have ok: "newSideOk l2 (Suc j) ?b"
        by (simp add: newSideOk_def)
      have e': "nat (newStart ?b - 1) + length (newLines ?b) = Suc j"
        using e by simp
      have "panel_step l1 l2 (i, j, bs, n) = (i + 1, j + 1, butlast bs @ [?b], n)"
        using True False by (simp add: panel_step_def Let_def)
      with butl ok e' j show ?thesis
        by (simp add: newSideInv_def)
    qed
  next
    case False
    show ?thesis
    proof (cases "findNextMatch l1 l2 i j")
      case None
      show ?thesis
      proof (cases "i < length l1 \<and> j < length l2")
        case both: True
        then have j: "j < length l2" by simp
        from all have all': "list_all (newSideOk l2 (Suc j)) bs"
          by (rule newSideOk_all_mono) simp
        have "panel_step l1 l2 (i, j, bs, n)
                = (i + 1, j + 1, bs @ [mkBlock n Change i [l1 ! i] j [l2 ! j]], n + 1)"
          using False None both by (simp add: panel_step_def)
        with all' newSideOk_single[OF j, of n Change i "[l1 ! i]"] j show ?thesis
          by (simp add: newSideInv_def mkBlock_def)
      next
        case notboth: False
        show ?thesis
        proof (cases "i < length l1")
          case True
          have "panel_step l1 l2 (i, j, bs, n)
                  = (i + 1, j, bs @ [mkBlock n Deletion i [l1 ! i] j []], n + 1)"
            using False None notboth True by (simp add: panel_step_def)
          with all newSideOk_none[of l2 j n Deletion i "[l1 ! i]"] jl show ?thesis
            by (simp add: newSideInv_def mkBlock_def)
        next
          case noti: False
          with cond have j: "j < length l2" by simp
          from all have all': "list_all (newSideOk l2 (Suc j)) bs"
            by (rule newSideOk_all_mono) simp
          have "panel_step l1 l2 (i, j, bs, n)
                  = (i, j + 1, bs @ [mkBlock n Addition i [] j [l2 ! j]], n + 1)"
            using False None notboth noti by (simp add: panel_step_def)
          with all' newSideOk_single[OF j, of n Addition i "[]"] j show ?thesis
            by (simp add: newSideInv_def mkBlock_def)
        qed
      qed
    next
      case (Some m)
      obtain a b where m: "m = (a, b)" by (cases m)
      from Some m have f: "i \<le> a \<and> a < length l1 \<and> j \<le> b \<and> b < length l2 \<and> l1 ! a = l2 ! b"
        using findNextMatch_Some by simp
      then have jb: "j \<le> b" and bl: "b \<le> length l2" by simp_all
      from all jb have all': "list_all (newSideOk l2 b) bs"
        by (rule newSideOk_all_mono)
      let ?blk = "if a > i \<and> b > j then mkBlock n Change i (slice l1 i a) j (slice l2 j b)
                  else if a > i then mkBlock n Deletion i (slice l1 i a) j []
                  else mkBlock n Addition i [] j (slice l2 j b)"
      have ok: "newSideOk l2 b ?blk"
        using newSideOk_fresh[OF jb bl] newSideOk_mono[OF newSideOk_none jb]
        by simp
      have nctx: "block_type ?blk \<noteq> Context" by (simp add: mkBlock_def)
      have "panel_step l1 l2 (i, j, bs, n) = (a, b, bs @ [?blk], n + 1)"
        using Some m by (simp add: panel_step_def if_not_P[OF False])
      with all' ok nctx bl show ?thesis
        by (simp add: newSideInv_def)
    qed
  qed
qed

lemma newSideInv_loop:
  "newSideInv l2 st \<Longrightarrow> list_all (newSideOk l2 (length l2)) (panel_loop l1 l2 st)"
proof (induction l1 l2 st rule: panel_loop.induct)
  case (1 lines1 lines2 st)
  obtain i j bs n where st: "st = (i, j, bs, n)" by (cases st)
  show ?case
  proof (cases "i < length lines1 \<or> j < length lines2")
    case True
    from "1.prems" st True have "newSideInv lines2 (panel_step lines1 lines2 st)"
      using newSideInv_step[of lines2 i j bs n lines1] by simp
    with "1.IH"[of i "(j, bs, n)" j "(bs, n)" bs n] st True show ?thesis
      by (subst panel_loop.simps) simp
  next
    case False
    from "1.prems" st have "list_all (newSideOk lines2 j) bs" "j \<le> length lines2"
      by (simp_all add: newSideInv_def)
    then have "list_all (newSideOk lines2 (length lines2)) bs"
      by (rule newSideOk_all_mono)
    with False st show ?thesis by (subst panel_loop.simps) simp
  qed
qed

lemma panel_computeDiff_newSide:
  "list_all (newSideOk (split_nl content2) (length (split_nl content2)))
     (panel_computeDiff content1 content2)"
  unfolding panel_computeDiff_def by (rule newSideInv_loop) (simp add: newSideInv_def)


subsection \<open>The reversion splice\<close>

lemma revertLines_take_drop:
  assumes "1 \<le> newStart block"
  shows "revertLines block lines =
     (case block_type block of
        Addition \<Rightarrow> take (nat (newStart block - 1)) lines
                      @ drop (nat (newStart block - 1) + length (newLines block)) lines
      | Deletion \<Rightarrow> take (nat (newStart block - 1)) lines @ oldLines block
                      @ drop (nat (newStart block - 1)) lines
      | Change \<Rightarrow> take (nat (newStart block - 1)) lines @ oldLines block
                    @ drop (nat (newStart block - 1) + length (newLines block)) lines
      | Context \<Rightarrow> lines)"
  using assms by (cases "block_type block") (simp_all add: revertLines_def splice_take_drop)

lemma revertLines_revertsEffect:
  assumes ok: "newSideOk lines (length lines) block" and nc: "block_type block \<noteq> Context"
  shows "revertsEffect block lines (revertLines block lines)"
proof -
  let ?p = "nat (newStart block - 1)" and ?n = "length (newLines block)"
  from ok have s1: "1 \<le> newStart block" and le: "?p + ?n \<le> length lines"
    and seg: "take ?n (drop ?p lines) = newLines block"
    by (simp_all add: newSideOk_def slice_def)
  let ?pre = "take ?p lines" and ?post = "drop (?p + ?n) lines"
  from le have lp: "length ?pre = ?p" by simp
  have "lines = ?pre @ (take ?n (drop ?p lines) @ drop ?n (drop ?p lines))"
    by (simp only: append_take_drop_id)
  moreover have "drop ?n (drop ?p lines) = ?post" by (simp add: add.commute)
  ultimately have whole: "lines = ?pre @ newLines block @ ?post" using seg by simp
  have plain: "lines = ?pre @ drop ?p lines" by simp
  show ?thesis
  proof (cases "block_type block")
    case Addition
    with lp whole show ?thesis
      unfolding revertsEffect_def revertLines_take_drop[OF s1]
      by (intro exI[of _ ?pre] exI[of _ ?post]) simp
  next
    case Deletion
    with lp plain show ?thesis
      unfolding revertsEffect_def revertLines_take_drop[OF s1]
      by (intro exI[of _ ?pre] exI[of _ "drop ?p lines"]) simp
  next
    case Change
    with lp whole show ?thesis
      unfolding revertsEffect_def revertLines_take_drop[OF s1]
      by (intro exI[of _ ?pre] exI[of _ ?post]) simp
  next
    case Context
    with nc show ?thesis by simp
  qed
qed

text \<open>
  C9. Approving a pending block removes its id from the pending set and changes nothing else:
  the two files on disk and the stored block list are the same before and after.
\<close>

theorem approve_frame:
  assumes "p_diffContent s = Some bs"
    and "find (\<lambda>b. block_id b = blockId) bs = Some block"
    and "blockId \<in> p_pendingBlocks s"
  shows "p_pendingBlocks (handleApproval s blockId Approve updateUI) = p_pendingBlocks s - {blockId}
       \<and> blockId \<notin> p_pendingBlocks (handleApproval s blockId Approve updateUI)
       \<and> p_file1 (handleApproval s blockId Approve updateUI) = p_file1 s
       \<and> p_file2 (handleApproval s blockId Approve updateUI) = p_file2 s
       \<and> p_diffContent (handleApproval s blockId Approve updateUI) = p_diffContent s"
  using assms by (simp add: handleApproval_def)

theorem approve_frame_witness:
  "p_pendingBlocks (handleApproval (getContent (newPanel ''a\<newline>b'' ''x\<newline>a\<newline>y\<newline>b'')) 0 Approve True) = {2}
   \<and> p_file2 (handleApproval (getContent (newPanel ''a\<newline>b'' ''x\<newline>a\<newline>y\<newline>b'')) 0 Approve True)
       = Some ''x\<newline>a\<newline>y\<newline>b''
   \<and> p_diffContent (handleApproval (getContent (newPanel ''a\<newline>b'' ''x\<newline>a\<newline>y\<newline>b'')) 0 Approve True)
       = Some example_blocks"
proof -
  let ?s = "getContent (newPanel ''a\<newline>b'' ''x\<newline>a\<newline>y\<newline>b'')"
  have d: "p_diffContent ?s = Some example_blocks" by (simp add: example_loaded)
  have f: "find (\<lambda>b. block_id b = 0) example_blocks = Some (mkBlock 0 Addition 0 [] 0 [''x''])"
    by (simp add: example_blocks_def mkBlock_def)
  have m: "0 \<in> p_pendingBlocks ?s" by (simp add: example_loaded)
  show ?thesis
    using approve_frame[OF d f m, of True] by (simp add: example_loaded)
qed


text \<open>
  C3. In a session whose stored blocks are the diff of the two files as they are on disk (the
  state after every load, and again after every single deny, which reloads), denying a
  non-context block reverts its effect on the live file by a splice at the block's recorded
  new-side position: for an addition the block's new lines are removed, for a deletion the
  block's recorded old lines are inserted at that position, for a change the block's new lines
  at that position are replaced by its recorded old lines. The file written afterwards is
  exactly this splice result joined with newlines, the id leaves the pending set, and with
  the reload the stored blocks are again the diff of the files on disk.
\<close>

theorem deny_reverts_block:
  assumes "p_file1 s = Some file1Content"
    and "p_file2 s = Some file2Content"
    and "p_diffContent s = Some (panel_computeDiff file1Content file2Content)"
    and "find (\<lambda>b. block_id b = blockId) (panel_computeDiff file1Content file2Content) = Some block"
    and "block_type block \<noteq> Context"
  shows "p_file2 (handleApproval s blockId Deny updateUI)
           = Some (join_nl (revertLines block (split_nl file2Content)))
       \<and> revertsEffect block (split_nl file2Content) (revertLines block (split_nl file2Content))
       \<and> p_pendingBlocks (handleApproval s blockId Deny updateUI) = p_pendingBlocks s - {blockId}
       \<and> p_diffContent (handleApproval s blockId Deny True)
           = Some (panel_computeDiff file1Content (join_nl (revertLines block (split_nl file2Content))))"
proof -
  from assms(4) have "block \<in> set (panel_computeDiff file1Content file2Content)"
    by (auto simp: find_Some_iff)
  with panel_computeDiff_newSide[of file2Content file1Content]
  have "newSideOk (split_nl file2Content) (length (split_nl file2Content)) block"
    by (simp add: list_all_iff)
  then have eff: "revertsEffect block (split_nl file2Content) (revertLines block (split_nl file2Content))"
    using assms(5) by (rule revertLines_revertsEffect)
  have written: "p_file2 (handleApproval s blockId Deny updateUI)
                   = Some (join_nl (revertLines block (split_nl file2Content)))"
    and pend: "p_pendingBlocks (handleApproval s blockId Deny updateUI) = p_pendingBlocks s - {blockId}"
    using assms(2,3,4) by (simp_all add: handleApproval_def Let_def)
  have reload: "p_diffContent (handleApproval s blockId Deny True)
           = Some (panel_computeDiff file1Content (join_nl (revertLines block (split_nl file2Content))))"
    using assms(1,2,3,4) by (simp add: handleApproval_def Let_def loadDiffContent_def)
  from written eff pend reload show ?thesis by simp
qed

text \<open>The diff of \<^verbatim>\<open>"a\nb"\<close> against \<^verbatim>\<open>"a\ny"\<close>, and against itself.\<close>

lemma change_diff:
  "panel_computeDiff ''a\<newline>b'' ''a\<newline>y''
     = [mkBlock 0 Context 0 [''a''] 0 [''a''], mkBlock 1 Change 1 [''b''] 1 [''y'']]"
  by code_simp

lemma same_diff:
  "panel_computeDiff ''a\<newline>b'' ''a\<newline>b'' = [mkBlock 0 Context 0 [''a'', ''b''] 0 [''a'', ''b'']]"
  by code_simp

theorem deny_reverts_block_witness:
  "p_file2 (handleApproval example_panel 2 Deny False) = Some ''x\<newline>a\<newline>b''
   \<and> revertsEffect (mkBlock 2 Addition 1 [] 2 [''y'']) [''x'', ''a'', ''y'', ''b''] [''x'', ''a'', ''b'']
   \<and> p_pendingBlocks (handleApproval example_panel 2 Deny False) = {0}
   \<and> p_file2 (handleApproval (getContent (newPanel ''a\<newline>b'' ''a\<newline>y'')) 1 Deny True) = Some ''a\<newline>b''
   \<and> revertsEffect (mkBlock 1 Change 1 [''b''] 1 [''y'']) [''a'', ''y''] [''a'', ''b'']
   \<and> p_diffContent (handleApproval (getContent (newPanel ''a\<newline>b'' ''a\<newline>y'')) 1 Deny True)
        = Some [mkBlock 0 Context 0 [''a'', ''b''] 0 [''a'', ''b'']]"
proof -
  have f1: "p_file1 example_panel = Some ''a\<newline>b''"
    and f2: "p_file2 example_panel = Some ''x\<newline>a\<newline>y\<newline>b''"
    and d: "p_diffContent example_panel = Some (panel_computeDiff ''a\<newline>b'' ''x\<newline>a\<newline>y\<newline>b'')"
    by (simp_all add: example_panel_eq example_diff)
  have f: "find (\<lambda>b. block_id b = 2) (panel_computeDiff ''a\<newline>b'' ''x\<newline>a\<newline>y\<newline>b'')
             = Some (mkBlock 2 Addition 1 [] 2 [''y''])"
    by (simp add: example_diff example_blocks_def mkBlock_def)
  have t: "block_type (mkBlock 2 Addition 1 [] 2 [''y'']) \<noteq> Context" by (simp add: mkBlock_def)
  have r: "revertLines (mkBlock 2 Addition 1 [] 2 [''y'']) [''x'', ''a'', ''y'', ''b''] = [''x'', ''a'', ''b'']"
    by (simp add: revertLines_def splice_def mkBlock_def Let_def)
  have e: "{0, 2} - {2} = {0::int}" by auto
  have first: "p_file2 (handleApproval example_panel 2 Deny False) = Some ''x\<newline>a\<newline>b''
   \<and> revertsEffect (mkBlock 2 Addition 1 [] 2 [''y'']) [''x'', ''a'', ''y'', ''b''] [''x'', ''a'', ''b'']
   \<and> p_pendingBlocks (handleApproval example_panel 2 Deny False) = {0}"
    using deny_reverts_block[OF f1 f2 d f t, of False] r e
    by (simp add: example_panel_eq)
  let ?s = "getContent (newPanel ''a\<newline>b'' ''a\<newline>y'')"
  have g1: "p_file1 ?s = Some ''a\<newline>b''" and g2: "p_file2 ?s = Some ''a\<newline>y''"
    and gd: "p_diffContent ?s = Some (panel_computeDiff ''a\<newline>b'' ''a\<newline>y'')"
    by (simp_all add: getContent_def newPanel_def loadDiffContent_def)
  have gf: "find (\<lambda>b. block_id b = 1) (panel_computeDiff ''a\<newline>b'' ''a\<newline>y'')
              = Some (mkBlock 1 Change 1 [''b''] 1 [''y''])"
    by (simp add: change_diff mkBlock_def)
  have gt: "block_type (mkBlock 1 Change 1 [''b''] 1 [''y'']) \<noteq> Context" by (simp add: mkBlock_def)
  have gr: "revertLines (mkBlock 1 Change 1 [''b''] 1 [''y'']) [''a'', ''y''] = [''a'', ''b'']"
    by (simp add: revertLines_def splice_def mkBlock_def Let_def)
  have second: "p_file2 (handleApproval ?s 1 Deny True) = Some ''a\<newline>b''
   \<and> revertsEffect (mkBlock 1 Change 1 [''b''] 1 [''y'']) [''a'', ''y''] [''a'', ''b'']
   \<and> p_diffContent (handleApproval ?s 1 Deny True)
        = Some [mkBlock 0 Context 0 [''a'', ''b''] 0 [''a'', ''b'']]"
    using deny_reverts_block[OF g1 g2 gd gf gt, of True] gr
    by (simp add: same_diff)
  from first second show ?thesis by simp
qed

text \<open>
  C2. The claim is that after deny-all the pending set is empty and the file is back at the
  original text. Deny-all reverts the blocks one after the other at the positions recorded
  before the first reversion. With the original \<^verbatim>\<open>"a\nb"\<close> and the modified
  \<^verbatim>\<open>"x\na\ny\nb"\<close>, removing the first addition moves the second one up by a line, the
  second splice removes line \<open>b\<close> instead of \<open>y\<close>, and the file ends as \<^verbatim>\<open>"a\ny"\<close>: a new
  diff against the original still has a change block.
\<close>

theorem denyAll_example:
  "p_pendingBlocks (handleDenyAll example_panel) = {}
   \<and> p_file2 (handleDenyAll example_panel) = Some ''a\<newline>y''
   \<and> nonContextBlocks (panel_computeDiff ''a\<newline>b'' ''a\<newline>y'') = [mkBlock 1 Change 1 [''b''] 1 [''y'']]"
proof -
  have a: "nonContextBlocks example_blocks = [mkBlock 0 Addition 0 [] 0 [''x''], mkBlock 2 Addition 1 [] 2 [''y'']]"
    by (simp add: example_blocks_def nonContextBlocks_def mkBlock_def)
  have "p_file2 (denyEach example_panel
           [mkBlock 0 Addition 0 [] 0 [''x''], mkBlock 2 Addition 1 [] 2 [''y'']]) = Some ''a\<newline>y''"
    by (simp add: example_panel_eq handleApproval_def example_blocks_def mkBlock_def
        revertLines_def splice_def checkIfAllBlocksProcessed_def Let_def)
  then have b: "p_file2 (denyEach example_panel (nonContextBlocks example_blocks)) = Some ''a\<newline>y''"
    by (simp only: a)
  have c: "panel_computeDiff ''a\<newline>b'' ''a\<newline>y'' = [mkBlock 0 Context 0 [''a''] 0 [''a''], mkBlock 1 Change 1 [''b''] 1 [''y'']]"
    by code_simp
  show ?thesis
    using b by (simp add: handleDenyAll_def example_panel_eq Let_def c nonContextBlocks_def mkBlock_def)
qed


text \<open>
  C8, as stated: a deny of a block id that an approve has already removed from the pending set
  changes no file content. It fails: the handler finds the block in the stored block list and
  never looks at the pending set, so the file is spliced and written again.
\<close>

theorem deny_after_approve_counterexample:
  "0 \<notin> p_pendingBlocks (handleApproval example_panel 0 Approve True)
   \<and> p_file2 (handleApproval example_panel 0 Approve True) = Some ''x\<newline>a\<newline>y\<newline>b''
   \<and> p_file2 (handleApproval (handleApproval example_panel 0 Approve True) 0 Deny True)
        = Some ''a\<newline>y\<newline>b''"
proof -
  have a: "handleApproval example_panel 0 Approve True = example_panel\<lparr> p_pendingBlocks := {2} \<rparr>"
    by (simp add: example_panel_eq handleApproval_def example_blocks_def mkBlock_def
        checkIfAllBlocksProcessed_def)
  have b: "p_file2 (handleApproval (example_panel\<lparr> p_pendingBlocks := {2} \<rparr>) 0 Deny True)
             = Some ''a\<newline>y\<newline>b''"
    by (simp add: example_panel_eq handleApproval_def example_blocks_def mkBlock_def
        revertLines_def splice_def Let_def)
  show ?thesis
    unfolding a using b by (simp add: example_panel_eq)
qed

text \<open>
  C8, amended. After an approve of a block of the stored list the id is no longer pending; a
  following deny of the same id leaves the pending set as it is, and it still reverts the block
  in the file: the written content is the reversion splice of that block on the live file.
\<close>

theorem deny_after_approve_still_reverts:
  assumes "p_diffContent s = Some bs"
    and "find (\<lambda>b. block_id b = blockId) bs = Some block"
    and "p_file2 s = Some file2Content"
  shows "blockId \<notin> p_pendingBlocks (handleApproval s blockId Approve u)
       \<and> p_file2 (handleApproval (handleApproval s blockId Approve u) blockId Deny updateUI)
           = Some (join_nl (revertLines block (split_nl file2Content)))
       \<and> p_pendingBlocks (handleApproval (handleApproval s blockId Approve u) blockId Deny updateUI)
           = p_pendingBlocks (handleApproval s blockId Approve u)"
proof -
  let ?s1 = "handleApproval s blockId Approve u"
  have d: "p_diffContent ?s1 = Some bs" and f: "p_file2 ?s1 = Some file2Content"
    and p: "p_pendingBlocks ?s1 = p_pendingBlocks s - {blockId}"
    using assms by (simp_all add: handleApproval_def)
  have "p_file2 (handleApproval ?s1 blockId Deny updateUI)
          = Some (join_nl (revertLines block (split_nl file2Content)))"
    using d f assms(2) by (simp add: handleApproval_def Let_def)
  moreover have "p_pendingBlocks (handleApproval ?s1 blockId Deny updateUI) = p_pendingBlocks ?s1"
    using d f assms(2) p by (simp add: handleApproval_def Let_def)
  ultimately show ?thesis using p by simp
qed

theorem deny_after_approve_still_reverts_witness:
  "0 \<notin> p_pendingBlocks (handleApproval example_panel 0 Approve True)
   \<and> p_file2 (handleApproval (handleApproval example_panel 0 Approve True) 0 Deny False)
        = Some ''a\<newline>y\<newline>b''
   \<and> p_pendingBlocks (handleApproval (handleApproval example_panel 0 Approve True) 0 Deny False) = {2}"
proof -
  have d: "p_diffContent example_panel = Some example_blocks" by (simp add: example_panel_eq)
  have f: "find (\<lambda>b. block_id b = 0) example_blocks = Some (mkBlock 0 Addition 0 [] 0 [''x''])"
    by (simp add: example_blocks_def mkBlock_def)
  have c: "p_file2 example_panel = Some ''x\<newline>a\<newline>y\<newline>b''" by (simp add: example_panel_eq)
  have a: "p_pendingBlocks (handleApproval example_panel 0 Approve True) = {2}"
    by (simp add: example_panel_eq handleApproval_def example_blocks_def mkBlock_def)
  show ?thesis
    using deny_after_approve_still_reverts[OF d f c, of True False] a
    by (simp add: revertLines_def splice_def mkBlock_def Let_def)
qed


section \<open>The completion signal of a DiffFile session\<close>

lemma completeOnce_simps [simp]:
  "pendingBlocks (completeOnce fp s) = pendingBlocks s"
  "hasCalledAllBlocksProcessed (completeOnce fp s)"
  "allProcessedCalls (completeOnce fp s)
     = (if hasCalledAllBlocksProcessed s then allProcessedCalls s else allProcessedCalls s + 1)"
  "approvedFiles (completeOnce fp s)
     = (if hasCalledAllBlocksProcessed s then approvedFiles s else insert fp (approvedFiles s))"
  by (simp_all add: completeOnce_def markFileAsApproved_def)

lemma processGroup_frame:
  "processGroup cb approved bs s = (s1, ok) \<Longrightarrow>
     hasCalledAllBlocksProcessed s1 = hasCalledAllBlocksProcessed s
     \<and> allProcessedCalls s1 = allProcessedCalls s
     \<and> approvedFiles s1 = approvedFiles s
     \<and> (\<not> ok \<longrightarrow> bs \<noteq> [])"
  by (induction bs arbitrary: s) (auto simp: Let_def split: if_splits)

lemma callAll_frame:
  "callAll cb isApprove ids s = (s1, ok) \<Longrightarrow>
     hasCalledAllBlocksProcessed s1 = hasCalledAllBlocksProcessed s
     \<and> allProcessedCalls s1 = allProcessedCalls s
     \<and> approvedFiles s1 = approvedFiles s
     \<and> pendingBlocks s1 = pendingBlocks s
     \<and> (ok = (\<forall>i\<in>set ids. cb i isApprove))"
  by (induction ids arbitrary: s) (auto simp: Let_def split: if_splits)


text \<open>A step either leaves the completion state alone or fires it for the first time.\<close>

definition quiet :: "DiffFileState \<Rightarrow> DiffFileState \<Rightarrow> bool" where
  "quiet s s' =
     (allProcessedCalls s' = allProcessedCalls s
      \<and> hasCalledAllBlocksProcessed s' = hasCalledAllBlocksProcessed s
      \<and> approvedFiles s' = approvedFiles s)"

definition fires :: "string \<Rightarrow> DiffFileState \<Rightarrow> DiffFileState \<Rightarrow> bool" where
  "fires fp s s' =
     (\<not> hasCalledAllBlocksProcessed s \<and> hasCalledAllBlocksProcessed s'
      \<and> allProcessedCalls s' = allProcessedCalls s + 1
      \<and> pendingBlocks s' = []
      \<and> approvedFiles s' = insert fp (approvedFiles s))"

lemma completeOnce_quiet_or_fires:
  assumes "quiet s s1" and "pendingBlocks s1 = []"
  shows "quiet s (completeOnce fp s1) \<or> fires fp s (completeOnce fp s1)"
  using assms by (auto simp: quiet_def fires_def)

lemma handleMessage_quiet_or_fires:
  "quiet s (handleMessage cb fp s t b) \<or> fires fp s (handleMessage cb fp s t b)"
proof (cases "t = ''approve'' \<or> t = ''deny''")
  case True
  show ?thesis
  proof (cases b)
    case None
    with True show ?thesis by (simp add: handleMessage_def quiet_def)
  next
    case (Some blockId)
    obtain s1 ok where pg: "processGroup cb (t = ''approve'') (DiffFile_findRelatedBlocks blockId) s = (s1, ok)"
      by (cases "processGroup cb (t = ''approve'') (DiffFile_findRelatedBlocks blockId) s")
    from processGroup_frame[OF pg] have q: "quiet s s1" by (simp add: quiet_def)
    have len: "length (DiffFile_findRelatedBlocks blockId) > 0"
      by (simp add: DiffFile_findRelatedBlocks_def)
    show ?thesis
    proof (cases "ok \<and> pendingBlocks s1 = []")
      case True
      with completeOnce_quiet_or_fires[OF q, of fp] have
        "quiet s (completeOnce fp s1) \<or> fires fp s (completeOnce fp s1)" by simp
      moreover have "handleMessage cb fp s t b = completeOnce fp s1"
        using \<open>t = ''approve'' \<or> t = ''deny''\<close> Some pg len True
        by (simp add: handleMessage_def Let_def)
      ultimately show ?thesis by simp
    next
      case False
      have "handleMessage cb fp s t b = s1"
        using \<open>t = ''approve'' \<or> t = ''deny''\<close> Some pg len False
        by (auto simp: handleMessage_def Let_def split: bool.splits)
      with q show ?thesis by simp
    qed
  qed
next
  case False
  show ?thesis
  proof (cases "t = ''approveAll'' \<or> t = ''denyAll''")
    case all: True
    obtain s1 ok where ca: "callAll cb (t = ''approveAll'') (pendingBlocks s) s = (s1, ok)"
      by (cases "callAll cb (t = ''approveAll'') (pendingBlocks s) s")
    from callAll_frame[OF ca] have q: "quiet s s1" by (simp add: quiet_def)
    show ?thesis
    proof (cases ok)
      case True
      have q': "quiet s (s1\<lparr> pendingBlocks := [] \<rparr>)" using q by (simp add: quiet_def)
      have "handleMessage cb fp s t b = completeOnce fp (s1\<lparr> pendingBlocks := [] \<rparr>)"
        using False all ca True by (simp add: handleMessage_def)
      with completeOnce_quiet_or_fires[OF q', of fp] show ?thesis by simp
    next
      case notok: False
      have "handleMessage cb fp s t b = s1"
        using False all ca notok by (simp add: handleMessage_def)
      with q show ?thesis by simp
    qed
  next
    case other: False
    with False show ?thesis by (simp add: handleMessage_def quiet_def)
  qed
qed

lemma onDidDispose_quiet_or_fires:
  "quiet s (onDidDispose fp s) \<or> fires fp s (onDidDispose fp s)"
  by (auto simp: onDidDispose_def quiet_def fires_def markFileAsApproved_def)

lemma step_quiet_or_fires:
  "quiet s (step cb fp s e) \<or> fires fp s (step cb fp s e)"
  by (cases e) (simp_all add: step_def handleMessage_quiet_or_fires onDidDispose_quiet_or_fires)

text \<open>The counter of completion calls is 1 when the flag is set and 0 otherwise.\<close>

definition countsFlag :: "DiffFileState \<Rightarrow> bool" where
  "countsFlag s = (allProcessedCalls s = (if hasCalledAllBlocksProcessed s then 1 else 0))"

lemma step_countsFlag: "countsFlag s \<Longrightarrow> countsFlag (step cb fp s e)"
  using step_quiet_or_fires[of s cb fp e]
  by (auto simp: countsFlag_def quiet_def fires_def split: if_splits)

lemma run_countsFlag: "countsFlag s \<Longrightarrow> countsFlag (run cb fp s es)"
  by (induction es arbitrary: s) (simp_all add: step_countsFlag)

text \<open>Once the flag is set, the file is in the approved set.\<close>

definition flagMarked :: "string \<Rightarrow> DiffFileState \<Rightarrow> bool" where
  "flagMarked fp s = (hasCalledAllBlocksProcessed s \<longrightarrow> fp \<in> approvedFiles s)"

lemma step_flagMarked: "flagMarked fp s \<Longrightarrow> flagMarked fp (step cb fp s e)"
  using step_quiet_or_fires[of s cb fp e]
  by (auto simp: flagMarked_def quiet_def fires_def)

lemma run_flagMarked: "flagMarked fp s \<Longrightarrow> flagMarked fp (run cb fp s es)"
  by (induction es arbitrary: s) (simp_all add: step_flagMarked)

text \<open>
  C6. In every run of one session, starting with the flag unset, the completion callback
  \<^verbatim>\<open>onAllBlocksProcessed\<close> is called at most once. A step that calls it starts with the
  flag unset, sets the flag and ends with an empty pending set; once the flag is set no step
  calls it again, whatever the pending set is. Closing the panel while blocks are pending
  changes nothing: no call, no flag, and the file is not marked as approved.
\<close>

theorem completion_fires_at_most_once:
  assumes "\<not> hasCalledAllBlocksProcessed s0" and "allProcessedCalls s0 = 0"
  shows "allProcessedCalls (run cb fp s0 es) \<le> 1
       \<and> (\<forall>s e. allProcessedCalls (step cb fp s e) \<noteq> allProcessedCalls s \<longrightarrow>
              \<not> hasCalledAllBlocksProcessed s
              \<and> hasCalledAllBlocksProcessed (step cb fp s e)
              \<and> pendingBlocks (step cb fp s e) = []
              \<and> allProcessedCalls (step cb fp s e) = allProcessedCalls s + 1)
       \<and> (\<forall>s e. hasCalledAllBlocksProcessed s \<longrightarrow>
              allProcessedCalls (step cb fp s e) = allProcessedCalls s)
       \<and> (\<forall>s. pendingBlocks s \<noteq> [] \<longrightarrow> step cb fp s PanelDisposed = s)"
proof -
  from assms have "countsFlag s0" by (simp add: countsFlag_def)
  then have "countsFlag (run cb fp s0 es)" by (rule run_countsFlag)
  then have a: "allProcessedCalls (run cb fp s0 es) \<le> 1"
    by (simp add: countsFlag_def split: if_splits)
  have b: "\<And>s e. allProcessedCalls (step cb fp s e) \<noteq> allProcessedCalls s \<Longrightarrow>
              \<not> hasCalledAllBlocksProcessed s
              \<and> hasCalledAllBlocksProcessed (step cb fp s e)
              \<and> pendingBlocks (step cb fp s e) = []
              \<and> allProcessedCalls (step cb fp s e) = allProcessedCalls s + 1"
    subgoal for s e
      using step_quiet_or_fires[of s cb fp e] by (auto simp: quiet_def fires_def)
    done
  have c: "\<And>s e. hasCalledAllBlocksProcessed s \<Longrightarrow>
              allProcessedCalls (step cb fp s e) = allProcessedCalls s"
    subgoal for s e
      using step_quiet_or_fires[of s cb fp e] by (auto simp: quiet_def fires_def)
    done
  have d: "\<And>s. pendingBlocks s \<noteq> [] \<Longrightarrow> step cb fp s PanelDisposed = s"
    by (simp add: step_def onDidDispose_def)
  from a b c d show ?thesis by blast
qed


text \<open>A session over the blocks of the example review, with no file approved yet.\<close>

definition example_session :: DiffFileState where
  "example_session = newDiffFile {} example_blocks"

lemma example_session_eq:
  "example_session =
     \<lparr> pendingBlocks = [0, 2], hasCalledAllBlocksProcessed = False, approvedFiles = {},
       blockCalls = [], allProcessedCalls = 0 \<rparr>"
  by (simp add: example_session_def newDiffFile_def example_blocks_def nonContextBlocks_def mkBlock_def)

theorem completion_fires_at_most_once_witness:
  "allProcessedCalls (run (\<lambda>i a. True) ''f.ts'' example_session
      [Message ''approve'' (Some 0), Message ''denyAll'' None, Message ''denyAll'' None, PanelDisposed]) = 1
   \<and> step (\<lambda>i a. True) ''f.ts'' example_session PanelDisposed = example_session"
proof -
  have h: "\<not> hasCalledAllBlocksProcessed example_session" "allProcessedCalls example_session = 0"
    by (simp_all add: example_session_eq)
  have p: "pendingBlocks example_session \<noteq> []" by (simp add: example_session_eq)
  have r: "allProcessedCalls (run (\<lambda>i a. True) ''f.ts'' example_session
      [Message ''approve'' (Some 0), Message ''denyAll'' None, Message ''denyAll'' None, PanelDisposed]) \<ge> 1"
    by code_simp
  note t = completion_fires_at_most_once[OF h, of "\<lambda>i a. True" "''f.ts''"
        "[Message ''approve'' (Some 0), Message ''denyAll'' None, Message ''denyAll'' None, PanelDisposed]"]
  from t have a: "allProcessedCalls (run (\<lambda>i a. True) ''f.ts'' example_session
      [Message ''approve'' (Some 0), Message ''denyAll'' None, Message ''denyAll'' None, PanelDisposed]) \<le> 1"
    by (rule conjunct1)
  from t have "\<forall>s. pendingBlocks s \<noteq> [] \<longrightarrow> step (\<lambda>i a. True) ''f.ts'' s PanelDisposed = s"
    by (elim conjE)
  with p have d: "step (\<lambda>i a. True) ''f.ts'' example_session PanelDisposed = example_session"
    by (elim allE impE) assumption+
  from a r have "allProcessedCalls (run (\<lambda>i a. True) ''f.ts'' example_session
      [Message ''approve'' (Some 0), Message ''denyAll'' None, Message ''denyAll'' None, PanelDisposed]) = 1"
    by (rule le_antisym)
  then show ?thesis using d by (rule conjI)
qed

lemma handleMessage_single:
  assumes "t = ''approve'' \<or> t = ''deny''"
  shows "handleMessage cb fp s t (Some blockId) =
     (let s1 = s\<lparr> blockCalls := blockCalls s @ [(blockId, t = ''approve'')] \<rparr>
      in if cb blockId (t = ''approve'') then
           (let s2 = s1\<lparr> pendingBlocks := removeAll blockId (pendingBlocks s) \<rparr>
            in if pendingBlocks s2 = [] then completeOnce fp s2 else s2)
         else s1)"
  using assms by (simp add: handleMessage_def DiffFile_findRelatedBlocks_def Let_def)

lemma handleMessage_completes:
  assumes "pendingBlocks s \<noteq> []" and "pendingBlocks (handleMessage cb fp s t b) = []"
  shows "hasCalledAllBlocksProcessed (handleMessage cb fp s t b)"
proof (cases "t = ''approve'' \<or> t = ''deny''")
  case True
  show ?thesis
  proof (cases b)
    case None
    with True assms show ?thesis by (simp add: handleMessage_def)
  next
    case (Some blockId)
    show ?thesis
    proof (cases "cb blockId (t = ''approve'')")
      case ok: True
      show ?thesis
      proof (cases "removeAll blockId (pendingBlocks s) = []")
        case True
        with ok Some show ?thesis
          by (simp add: handleMessage_single[OF \<open>t = ''approve'' \<or> t = ''deny''\<close>] Let_def)
      next
        case False
        with ok Some assms(2) show ?thesis
          by (simp add: handleMessage_single[OF \<open>t = ''approve'' \<or> t = ''deny''\<close>] Let_def)
      qed
    next
      case False
      with Some assms show ?thesis
        by (simp add: handleMessage_single[OF \<open>t = ''approve'' \<or> t = ''deny''\<close>] Let_def)
    qed
  qed
next
  case False
  show ?thesis
  proof (cases "t = ''approveAll'' \<or> t = ''denyAll''")
    case all: True
    obtain s1 ok where ca: "callAll cb (t = ''approveAll'') (pendingBlocks s) s = (s1, ok)"
      by (cases "callAll cb (t = ''approveAll'') (pendingBlocks s) s")
    from callAll_frame[OF ca] have pe: "pendingBlocks s1 = pendingBlocks s" by simp
    show ?thesis
    proof (cases ok)
      case True
      with False all ca show ?thesis by (simp add: handleMessage_def)
    next
      case notok: False
      with False all ca have "handleMessage cb fp s t b = s1" by (simp add: handleMessage_def)
      with pe assms show ?thesis by simp
    qed
  next
    case other: False
    with False assms show ?thesis by (simp add: handleMessage_def)
  qed
qed

lemma denyAll_completes:
  assumes "\<forall>i\<in>set (pendingBlocks s). cb i False"
  shows "pendingBlocks (handleMessage cb fp s ''denyAll'' b) = []
       \<and> hasCalledAllBlocksProcessed (handleMessage cb fp s ''denyAll'' b)"
proof -
  obtain s1 ok where ca: "callAll cb False (pendingBlocks s) s = (s1, ok)"
    by (cases "callAll cb False (pendingBlocks s) s")
  from callAll_frame[OF ca] assms have ok by simp
  with ca show ?thesis by (simp add: handleMessage_def)
qed

text \<open>
  C10. In a session that started with the flag unset, a message after which the pending set
  has become empty leaves the file path in the static approved set, so \<open>isFileApproved\<close>
  holds afterwards. This includes deny-all: when every callback of the loop returns, the
  pending set is empty and the file counts as approved although every change was denied.
  The static \<^verbatim>\<open>resetApprovedFiles\<close> is not an event of a session.
\<close>

theorem completion_marks_file_approved:
  assumes "\<not> hasCalledAllBlocksProcessed s0"
  shows "(pendingBlocks (run cb fp s0 es) \<noteq> []
            \<and> pendingBlocks (handleMessage cb fp (run cb fp s0 es) t b) = []
          \<longrightarrow> isFileApproved (handleMessage cb fp (run cb fp s0 es) t b) fp)
       \<and> ((\<forall>i\<in>set (pendingBlocks (run cb fp s0 es)). cb i False)
          \<longrightarrow> pendingBlocks (handleMessage cb fp (run cb fp s0 es) ''denyAll'' b) = []
              \<and> isFileApproved (handleMessage cb fp (run cb fp s0 es) ''denyAll'' b) fp)"
proof -
  let ?s = "run cb fp s0 es"
  from assms have "flagMarked fp s0" by (simp add: flagMarked_def)
  then have fm: "flagMarked fp ?s" by (rule run_flagMarked)
  have after: "flagMarked fp (handleMessage cb fp ?s m b)" for m
    using step_flagMarked[OF fm, of cb "Message m b"] by (simp add: step_def)
  have one: "isFileApproved (handleMessage cb fp ?s t b) fp"
    if "pendingBlocks ?s \<noteq> []" "pendingBlocks (handleMessage cb fp ?s t b) = []"
    using handleMessage_completes[OF that] after[of t]
    by (simp add: flagMarked_def isFileApproved_def)
  have two: "pendingBlocks (handleMessage cb fp ?s ''denyAll'' b) = []
             \<and> isFileApproved (handleMessage cb fp ?s ''denyAll'' b) fp"
    if "\<forall>i\<in>set (pendingBlocks ?s). cb i False"
    using that denyAll_completes[of ?s cb fp b] after[of "''denyAll''"]
    by (simp add: flagMarked_def isFileApproved_def)
  from one two show ?thesis by blast
qed

theorem completion_marks_file_approved_witness:
  "pendingBlocks (handleMessage (\<lambda>i a. True) ''f.ts''
      (run (\<lambda>i a. True) ''f.ts'' example_session [Message ''approve'' (Some 0)]) ''denyAll'' None) = []
   \<and> isFileApproved (handleMessage (\<lambda>i a. True) ''f.ts''
      (run (\<lambda>i a. True) ''f.ts'' example_session [Message ''approve'' (Some 0)]) ''denyAll'' None) ''f.ts''"
proof -
  have h: "\<not> hasCalledAllBlocksProcessed example_session" by (simp add: example_session_eq)
  show ?thesis
    using completion_marks_file_approved[OF h, of "\<lambda>i a. True" "''f.ts''"
        "[Message ''approve'' (Some 0)]" "''denyAll''" None]
    by simp
qed


section \<open>Related blocks\<close>

text \<open>
  The parts that \<^verbatim>\<open>diffLines("a\nb\nc\n", "x\ny\na\nB\nc\n")\<close> returns: two added lines, an
  unchanged line, a removed line, an added line, an unchanged line. The added lines at the top
  move the new-side counter ahead of the old-side one, so the removed and the added line in
  the middle are not merged into a change block.
\<close>

definition split_parts :: "Part list" where
  "split_parts =
     [mkPart ''x\<newline>y\<newline>'' 2 True False, mkPart ''a\<newline>'' 1 False False,
      mkPart ''b\<newline>'' 1 False True, mkPart ''B\<newline>'' 1 True False,
      mkPart ''c\<newline>'' 1 False False]"


text \<open>The ids of the blocks are 0, 1, 2, ... in emission order.\<close>

definition idsSequential :: "DiffState \<Rightarrow> bool" where
  "idsSequential st =
     (0 \<le> c_blockId st \<and> map block_id (pushPending st) = map int [0..<nat (c_blockId st)])"

lemma upt_int_snoc: "0 \<le> n \<Longrightarrow> map int [0..<nat (n + 1)] = map int [0..<nat n] @ [n]"
  by (simp add: nat_add_distrib)

lemma step_idsSequential:
  assumes "idsSequential st"
  shows "idsSequential (computeDiff_step st p)"
proof (cases "part_added p \<or> part_removed p")
  case False
  with assms show ?thesis
    by (simp add: idsSequential_def computeDiff_step_def pushPending_def Let_def upt_int_snoc)
next
  case True
  show ?thesis
  proof (cases "startsNewBlock st p")
    case new: True
    with True assms show ?thesis
      by (auto simp: idsSequential_def computeDiff_step_def openBlock_def pushPending_def Let_def
          upt_int_snoc)
  next
    case False
    then obtain pb where pb: "c_pendingBlock st = Some pb"
      by (auto simp: startsNewBlock_def Let_def split: option.splits)
    with True False assms show ?thesis
      by (auto simp: idsSequential_def computeDiff_step_def openBlock_def pushPending_def Let_def)
  qed
qed

lemma loop_idsSequential: "idsSequential st \<Longrightarrow> idsSequential (computeDiff_loop st ps)"
  by (induction ps arbitrary: st) (simp_all add: step_idsSequential)

lemma computeDiff_ids:
  "map block_id (computeDiff diffLines content1 content2)
     = map int [0..<length (computeDiff diffLines content1 content2)]"
proof -
  have "idsSequential initDiffState"
    by (simp add: idsSequential_def initDiffState_def pushPending_def)
  then have s: "idsSequential (computeDiff_loop initDiffState (diffLines content1 content2))"
    by (rule loop_idsSequential)
  then have "length (computeDiff diffLines content1 content2)
       = nat (c_blockId (computeDiff_loop initDiffState (diffLines content1 content2)))"
    unfolding computeDiff_def idsSequential_def
    by (metis length_map length_upt minus_nat.diff_0)
  with s show ?thesis
    by (simp add: computeDiff_def idsSequential_def)
qed

lemma computeDiff_distinct_ids: "distinct (map block_id (computeDiff diffLines content1 content2))"
  by (simp add: computeDiff_ids distinct_map inj_on_def)


lemma findIndex_distinct:
  "distinct (map block_id bs) \<Longrightarrow> t < length bs \<Longrightarrow>
     findIndex (\<lambda>block. block_id block = block_id (bs ! t)) bs = Some t"
proof (induction bs arbitrary: t)
  case Nil
  then show ?case by simp
next
  case (Cons b bs)
  show ?case
  proof (cases t)
    case 0
    then show ?thesis by simp
  next
    case (Suc k)
    with Cons.prems have k: "k < length bs" and d: "distinct (map block_id bs)"
      and nb: "block_id b \<notin> block_id ` set bs" by auto
    from k have "bs ! k \<in> set bs" by simp
    with nb have "block_id b \<noteq> block_id (bs ! k)" by auto
    with Cons.IH[OF d k] Suc show ?thesis by simp
  qed
qed

lemma lookBackwards_context:
  "block_type (bs ! i) = Context \<Longrightarrow> lookBackwards bs i acc = acc"
  by (cases i) simp_all

lemma lookBackwards_run:
  assumes "list_all (\<lambda>b. block_type b \<noteq> Context) grp"
    and "pre = [] \<or> block_type (last pre) = Context"
    and "k < length grp"
  shows "lookBackwards (pre @ grp @ post) (length pre + k) acc = take (Suc k) grp @ acc"
  using assms(3)
proof (induction k arbitrary: acc)
  case 0
  then have g0: "(pre @ grp @ post) ! length pre = grp ! 0"
    by (simp add: nth_append)
  from 0 assms(1) have nc: "block_type (grp ! 0) \<noteq> Context"
    by (simp add: list_all_length)
  from 0 have t1: "take (Suc 0) grp = [grp ! 0]"
    by (cases grp) simp_all
  show ?case
  proof (cases pre)
    case Nil
    with g0 nc t1 show ?thesis by simp
  next
    case (Cons p ps)
    then obtain n where n: "length pre = Suc n" by simp
    from n have "(pre @ grp @ post) ! n = pre ! n" by (simp add: nth_append)
    moreover from Cons have "pre \<noteq> []" by simp
    then have "last pre = pre ! (length pre - 1)" by (rule last_conv_nth)
    then have "last pre = pre ! n" using n by simp
    ultimately have "(pre @ grp @ post) ! n = last pre" by simp
    with assms(2) Cons have "block_type ((pre @ grp @ post) ! n) = Context" by simp
    then have "lookBackwards (pre @ grp @ post) n (grp ! 0 # acc) = grp ! 0 # acc"
      by (rule lookBackwards_context)
    with g0 nc n t1 show ?thesis by simp
  qed
next
  case (Suc k)
  then have k: "k < length grp" by simp
  from Suc.prems have g: "(pre @ grp @ post) ! Suc (length pre + k) = grp ! Suc k"
    by (simp add: nth_append)
  from Suc.prems assms(1) have nc: "block_type (grp ! Suc k) \<noteq> Context"
    by (simp add: list_all_length)
  have "lookBackwards (pre @ grp @ post) (length pre + Suc k) acc
          = lookBackwards (pre @ grp @ post) (length pre + k) (grp ! Suc k # acc)"
    using g nc by simp
  also have "\<dots> = take (Suc k) grp @ (grp ! Suc k # acc)"
    by (rule Suc.IH[OF k])
  also have "\<dots> = take (Suc (Suc k)) grp @ acc"
    using Suc.prems by (simp add: take_Suc_conv_app_nth)
  finally show ?case .
qed

lemma lookForwards_stop:
  "\<not> i < length bs \<or> block_type (bs ! i) = Context \<Longrightarrow> lookForwards bs i acc = acc"
  by (subst lookForwards.simps) auto

lemma lookForwards_run:
  assumes "list_all (\<lambda>b. block_type b \<noteq> Context) grp"
    and "post = [] \<or> block_type (hd post) = Context"
    and "j \<le> length grp"
  shows "lookForwards (pre @ grp @ post) (length pre + j) acc = acc @ drop j grp"
  using assms(3)
proof (induction "length grp - j" arbitrary: j acc)
  case 0
  then have j: "j = length grp" by simp
  have "\<not> length pre + j < length (pre @ grp @ post)
          \<or> block_type ((pre @ grp @ post) ! (length pre + j)) = Context"
  proof (cases post)
    case Nil
    with j show ?thesis by simp
  next
    case (Cons q qs)
    with assms(2) have "block_type q = Context" by simp
    with Cons j show ?thesis by (simp add: nth_append)
  qed
  then have "lookForwards (pre @ grp @ post) (length pre + j) acc = acc"
    by (rule lookForwards_stop)
  with j show ?case by simp
next
  case (Suc d)
  then have j: "j < length grp" by simp
  then have g: "(pre @ grp @ post) ! (length pre + j) = grp ! j"
    by (simp add: nth_append)
  from j assms(1) have nc: "block_type (grp ! j) \<noteq> Context"
    by (simp add: list_all_length)
  have "lookForwards (pre @ grp @ post) (length pre + j) acc
          = lookForwards (pre @ grp @ post) (length pre + Suc j) (acc @ [grp ! j])"
    using j g nc
    by (simp add: lookForwards.simps[of "pre @ grp @ post" "length pre + j" acc])
  also have "\<dots> = (acc @ [grp ! j]) @ drop (Suc j) grp"
    using Suc.hyps(1)[of "Suc j"] Suc.hyps(2) j by simp
  also have "\<dots> = acc @ drop j grp"
    using j by (simp add: Cons_nth_drop_Suc)
  finally show ?case .
qed

lemma findRelatedBlocks_group:
  assumes "distinct (map block_id (pre @ grp @ post))"
    and "list_all (\<lambda>b. block_type b \<noteq> Context) grp"
    and "pre = [] \<or> block_type (last pre) = Context"
    and "post = [] \<or> block_type (hd post) = Context"
    and "m \<in> set grp"
  shows "findRelatedBlocks (Some (pre @ grp @ post)) (block_id m) = grp"
proof -
  from assms(5) obtain k where k: "k < length grp" and m: "m = grp ! k"
    by (auto simp: in_set_conv_nth)
  let ?bs = "pre @ grp @ post"
  have t: "length pre + k < length ?bs" using k by simp
  have at: "?bs ! (length pre + k) = m" using k m by (simp add: nth_append)
  from findIndex_distinct[OF assms(1) t] at
  have "findIndex (\<lambda>block. block_id block = block_id m) ?bs = Some (length pre + k)" by simp
  then have "findRelatedBlocks (Some ?bs) (block_id m)
      = lookForwards ?bs (length pre + Suc k) (lookBackwards ?bs (length pre + k) [])"
    by (simp add: findRelatedBlocks_def)
  also have "\<dots> = lookForwards ?bs (length pre + Suc k) (take (Suc k) grp)"
    using lookBackwards_run[OF assms(2) assms(3) k, of post "[]"] by simp
  also have "\<dots> = take (Suc k) grp @ drop (Suc k) grp"
    using k by (intro lookForwards_run[OF assms(2) assms(4)]) simp
  finally show ?thesis by simp
qed


text \<open>
  The contiguous run of non-context blocks around position \<open>t\<close>, as the specification words
  it: the run contains position \<open>t\<close>, holds no context block, and is bounded on each side by a
  context block or by the end of the sequence.
\<close>

definition isSurroundingRun :: "DiffBlock list \<Rightarrow> nat \<Rightarrow> DiffBlock list \<Rightarrow> bool" where
  "isSurroundingRun bs t grp =
     (\<exists>pre post. bs = pre @ grp @ post
        \<and> length pre \<le> t \<and> t < length pre + length grp
        \<and> list_all (\<lambda>b. block_type b \<noteq> Context) grp
        \<and> (pre = [] \<or> block_type (last pre) = Context)
        \<and> (post = [] \<or> block_type (hd post) = Context))"

lemma run_exists:
  assumes "t < length bs" and "block_type (bs ! t) \<noteq> Context"
  shows "\<exists>grp. isSurroundingRun bs t grp"
proof -
  let ?P = "\<lambda>b. block_type b \<noteq> Context"
  let ?upto = "take (Suc t) bs" and ?rest = "drop (Suc t) bs"
  let ?pre = "rev (dropWhile ?P (rev ?upto))"
  let ?left = "rev (takeWhile ?P (rev ?upto))"
  let ?right = "takeWhile ?P ?rest"
  let ?post = "dropWhile ?P ?rest"
  have front: "?pre @ ?left = ?upto"
    by (metis rev_append rev_rev_ident takeWhile_dropWhile_id)
  have "bs = ?upto @ ?rest" by simp
  also have "\<dots> = ?pre @ (?left @ ?right) @ ?post"
    using front by (metis append.assoc takeWhile_dropWhile_id)
  finally have split: "bs = ?pre @ (?left @ ?right) @ ?post" .
  from assms(1) have "rev ?upto = bs ! t # rev (take t bs)"
    by (simp add: take_Suc_conv_app_nth)
  with assms(2) have "takeWhile ?P (rev ?upto) \<noteq> []" by simp
  then have left: "?left \<noteq> []" by simp
  from assms(1) have "length ?upto = Suc t" by simp
  with front have len: "length ?pre + length ?left = Suc t"
    by (metis length_append)
  with left have lo: "length ?pre \<le> t" by (cases ?left) simp_all
  from len have hi: "t < length ?pre + length (?left @ ?right)" by simp
  have nc: "list_all ?P (?left @ ?right)"
    by (auto simp: list_all_iff dest: set_takeWhileD)
  have pre: "?pre = [] \<or> block_type (last ?pre) = Context"
  proof (cases "dropWhile ?P (rev ?upto) = []")
    case True
    then show ?thesis by simp
  next
    case False
    then have "\<not> ?P (hd (dropWhile ?P (rev ?upto)))" by (rule hd_dropWhile)
    with False show ?thesis by (simp add: last_rev)
  qed
  have post: "?post = [] \<or> block_type (hd ?post) = Context"
  proof (cases "?post = []")
    case True
    then show ?thesis by simp
  next
    case False
    then have "\<not> ?P (hd ?post)" by (rule hd_dropWhile)
    then show ?thesis by simp
  qed
  from split lo hi nc pre post have "isSurroundingRun bs t (?left @ ?right)"
    unfolding isSurroundingRun_def by blast
  then show ?thesis ..
qed

lemma findRelatedBlocks_of_run:
  assumes "distinct (map block_id bs)" and "isSurroundingRun bs t grp"
  shows "findRelatedBlocks (Some bs) (block_id (bs ! t)) = grp
       \<and> (\<forall>m\<in>set grp. findRelatedBlocks (Some bs) (block_id m) = grp)"
proof -
  from assms(2) obtain pre post where bs: "bs = pre @ grp @ post"
    and lo: "length pre \<le> t" and hi: "t < length pre + length grp"
    and nc: "list_all (\<lambda>b. block_type b \<noteq> Context) grp"
    and pre: "pre = [] \<or> block_type (last pre) = Context"
    and post: "post = [] \<or> block_type (hd post) = Context"
    unfolding isSurroundingRun_def by blast
  from assms(1) bs have d: "distinct (map block_id (pre @ grp @ post))" by simp
  have each: "findRelatedBlocks (Some bs) (block_id m) = grp" if "m \<in> set grp" for m
    using findRelatedBlocks_group[OF d nc pre post that] bs by simp
  from lo hi have "bs ! t = grp ! (t - length pre)" "t - length pre < length grp"
    unfolding bs by (simp_all add: nth_append)
  then have "bs ! t \<in> set grp" by simp
  with each show ?thesis by blast
qed

text \<open>The block that \<open>DiffFile_findRelatedBlocks\<close> makes up for an id.\<close>

definition synthetic :: "int \<Rightarrow> DiffBlock" where
  "synthetic blockId = \<lparr> block_id = blockId, block_type = Change, oldLines = [], newLines = [],
                          oldStart = 0, newStart = 0 \<rparr>"

definition split_blocks :: "DiffBlock list" where
  "split_blocks =
     [\<lparr> block_id = 0, block_type = Addition, oldLines = [], newLines = [''x'', ''y'', []],
        oldStart = 1, newStart = 1 \<rparr>,
      ctxBlock 1 [''a'', []] 1 3,
      \<lparr> block_id = 2, block_type = Deletion, oldLines = [''b'', []], newLines = [],
        oldStart = 2, newStart = 4 \<rparr>,
      \<lparr> block_id = 3, block_type = Addition, oldLines = [], newLines = [''B'', []],
        oldStart = 3, newStart = 4 \<rparr>,
      ctxBlock 4 [''c'', []] 3 5]"

lemma split_diff:
  "computeDiff (\<lambda>content1 content2. split_parts) ''a\<newline>b\<newline>c\<newline>'' ''x\<newline>y\<newline>a\<newline>B\<newline>c\<newline>''
     = split_blocks"
  by (simp add: computeDiff_def split_parts_def mkPart_def computeDiff_step_def openBlock_def
      startsNewBlock_def pushPending_def initDiffState_def part_lines_def endsWith_nl_def
      count_or_0_def ctxBlock_def split_blocks_def Let_def)

lemma split_related:
  "findRelatedBlocks (Some split_blocks) 2 = [split_blocks ! 2, split_blocks ! 3]"
  by code_simp

text \<open>
  C4, as stated for \<^verbatim>\<open>DiffFile.findRelatedBlocks\<close>: it returns the contiguous run of
  non-context blocks around the block, the same for every member of the run. It fails: for the
  deletion with id 2, directly followed by the addition with id 3, the function returns one
  made-up change block with id 2 and no lines, not the two blocks of the run, and for id 3 it
  returns a different list.
\<close>

theorem findRelatedBlocks_counterexample:
  "oldText split_parts = ''a\<newline>b\<newline>c\<newline>''
   \<and> newText split_parts = ''x\<newline>y\<newline>a\<newline>B\<newline>c\<newline>''
   \<and> computeDiff (\<lambda>content1 content2. split_parts) ''a\<newline>b\<newline>c\<newline>'' ''x\<newline>y\<newline>a\<newline>B\<newline>c\<newline>''
        = split_blocks
   \<and> map block_type split_blocks = [Addition, Context, Deletion, Addition, Context]
   \<and> DiffFile_findRelatedBlocks 2 = [synthetic 2]
   \<and> DiffFile_findRelatedBlocks 2 \<noteq> [split_blocks ! 2, split_blocks ! 3]
   \<and> DiffFile_findRelatedBlocks 3 \<noteq> DiffFile_findRelatedBlocks 2"
  by (simp add: split_diff)
     (simp add: oldText_def newText_def split_parts_def mkPart_def split_blocks_def ctxBlock_def
       DiffFile_findRelatedBlocks_def synthetic_def)

text \<open>
  C4, amended. For every block sequence produced by \<open>computeDiff\<close> and every non-context
  block in it, \<open>findRelatedBlocks\<close> of the single-panel provider returns exactly the
  contiguous run of non-context blocks around that block, bounded by a context block or the
  end of the sequence on each side, and it returns the same run for the id of every member.
  \<open>DiffFile_findRelatedBlocks\<close> returns a single made-up change block that carries
  only the id.
\<close>

theorem findRelatedBlocks_is_run:
  assumes "t < length (computeDiff diffLines content1 content2)"
    and "block_type (computeDiff diffLines content1 content2 ! t) \<noteq> Context"
  shows "isSurroundingRun (computeDiff diffLines content1 content2) t
           (findRelatedBlocks (Some (computeDiff diffLines content1 content2))
              (block_id (computeDiff diffLines content1 content2 ! t)))
       \<and> (\<forall>m\<in>set (findRelatedBlocks (Some (computeDiff diffLines content1 content2))
                       (block_id (computeDiff diffLines content1 content2 ! t))).
             findRelatedBlocks (Some (computeDiff diffLines content1 content2)) (block_id m)
               = findRelatedBlocks (Some (computeDiff diffLines content1 content2))
                   (block_id (computeDiff diffLines content1 content2 ! t)))
       \<and> DiffFile_findRelatedBlocks (block_id (computeDiff diffLines content1 content2 ! t))
           = [synthetic (block_id (computeDiff diffLines content1 content2 ! t))]"
proof -
  let ?bs = "computeDiff diffLines content1 content2"
  from run_exists[OF assms] obtain grp where r: "isSurroundingRun ?bs t grp" ..
  have d: "distinct (map block_id ?bs)" by (rule computeDiff_distinct_ids)
  from findRelatedBlocks_of_run[OF d r] r show ?thesis
    by (simp add: DiffFile_findRelatedBlocks_def synthetic_def)
qed

theorem findRelatedBlocks_is_run_witness:
  "findRelatedBlocks (Some split_blocks) 3 = [split_blocks ! 2, split_blocks ! 3]
   \<and> findRelatedBlocks (Some split_blocks) 2 = [split_blocks ! 2, split_blocks ! 3]
   \<and> DiffFile_findRelatedBlocks 2 = [synthetic 2]"
proof -
  have len: "2 < length split_blocks" by (simp add: split_blocks_def)
  have nc: "block_type (split_blocks ! 2) \<noteq> Context" by (simp add: split_blocks_def)
  have id2: "block_id (split_blocks ! 2) = 2" and id3: "block_id (split_blocks ! 3) = 3"
    by (simp_all add: split_blocks_def)
  note t = findRelatedBlocks_is_run[of 2 "\<lambda>content1 content2. split_parts"
      "''a\<newline>b\<newline>c\<newline>''" "''x\<newline>y\<newline>a\<newline>B\<newline>c\<newline>''", unfolded split_diff, OF len nc]
  from t have "\<forall>m\<in>set (findRelatedBlocks (Some split_blocks) (block_id (split_blocks ! 2))).
      findRelatedBlocks (Some split_blocks) (block_id m)
        = findRelatedBlocks (Some split_blocks) (block_id (split_blocks ! 2))"
    by (elim conjE)
  then have "findRelatedBlocks (Some split_blocks) (block_id (split_blocks ! 3))
      = findRelatedBlocks (Some split_blocks) 2"
    unfolding id2 split_related by simp
  moreover from t have "DiffFile_findRelatedBlocks 2 = [synthetic 2]"
    unfolding id2 by (elim conjE)
  ultimately show ?thesis
    unfolding id3 split_related by simp
qed


end
